theory Spec2Isabelle
  imports Main "HOL-Library.Word"
begin

section \<open>JavaScript strings and the regular expressions of app.ts\<close>

text \<open>
  A JavaScript string is a sequence of UTF-16 code units. The brackets of a citation
  marker, U+3010 and U+3011, are one code unit each.
\<close>

type_synonym jschar = "16 word"
type_synonym jsstring = "jschar list"

definition LF :: jschar where "LF = 0x0A"
definition SP :: jschar where "SP = 0x20"
definition DOT :: jschar where "DOT = 0x2E"
definition LB :: jschar where "LB = 0x3010"
definition RB :: jschar where "RB = 0x3011"

text \<open>The class \<^verbatim>\<open>\s\<close>, which is also what \<^verbatim>\<open>trim()\<close> strips: WhiteSpace and LineTerminator.\<close>

definition is_space :: "jschar \<Rightarrow> bool" where
  "is_space c = (c \<in> set [0x09, 0x0A, 0x0B, 0x0C, 0x0D, 0x20, 0xA0, 0x1680,
     0x2000, 0x2001, 0x2002, 0x2003, 0x2004, 0x2005, 0x2006, 0x2007, 0x2008, 0x2009, 0x200A,
     0x2028, 0x2029, 0x202F, 0x205F, 0x3000, 0xFEFF])"

text \<open>The class \<^verbatim>\<open>\d\<close>.\<close>

definition is_digit :: "jschar \<Rightarrow> bool" where
  "is_digit c = (c \<in> set [0x30, 0x31, 0x32, 0x33, 0x34, 0x35, 0x36, 0x37, 0x38, 0x39])"

text \<open>The dot of a regular expression without the s flag matches all but line terminators.\<close>

definition is_line_terminator :: "jschar \<Rightarrow> bool" where
  "is_line_terminator c = (c \<in> set [0x0A, 0x0D, 0x2028, 0x2029])"

text \<open>
  A regular expression is modelled by what it matches at one position of the subject:
  given the text behind the position, nearest code unit first (what a lookbehind reads),
  and the text from the position on, the length of the match, if there is one.
\<close>

type_synonym matcher = "jsstring \<Rightarrow> jsstring \<Rightarrow> nat option"

text \<open>\<^verbatim>\<open>/\n\n+/\<close> (line 29): two or more line feeds, greedy.\<close>

fun re_paragraph :: matcher where
  "re_paragraph behind (a # b # rest) =
     (if a = LF \<and> b = LF then Some (length (takeWhile (\<lambda>c. c = LF) (a # b # rest))) else None)"
| "re_paragraph behind _ = None"

text \<open>
  \<^verbatim>\<open>/(?<!\d)\.\s+/\<close> (line 99): a period that no digit precedes, then one or more
  white space code units, greedy.
\<close>

fun re_sentence :: matcher where
  "re_sentence behind (a # b # rest) =
     (if a = DOT \<and> is_space b \<and> \<not> (case behind of [] \<Rightarrow> False | p # _ \<Rightarrow> is_digit p)
      then Some (Suc (length (takeWhile is_space (b # rest)))) else None)"
| "re_sentence behind _ = None"

text \<open>
  The lazy \<^verbatim>\<open>.*?\<close> followed by the closing bracket and a fixed tail: at each code
  unit the closing bracket and the tail are tried first; failing that the dot takes the
  code unit, unless it is a line terminator. The result counts the code units up to the
  end of the tail.
\<close>

fun tag_close :: "jsstring \<Rightarrow> jsstring \<Rightarrow> nat option" where
  "tag_close tail [] = None"
| "tag_close tail (c # cs) =
     (if c = RB \<and> take (length tail) cs = tail then Some (Suc (length tail))
      else if is_line_terminator c then None
      else map_option Suc (tag_close tail cs))"

text \<open>The marker pattern of lines 101 and 103: U+3010, a lazy \<^verbatim>\<open>.*?\<close>, then U+3011.\<close>

fun re_tag :: matcher where
  "re_tag behind [] = None"
| "re_tag behind (c # cs) = (if c = LB then map_option Suc (tag_close [] cs) else None)"

text \<open>The same followed by \<^verbatim>\<open>[ ] \<close>, two spaces (line 31).\<close>

fun re_tag_spaces :: matcher where
  "re_tag_spaces behind [] = None"
| "re_tag_spaces behind (c # cs) =
     (if c = LB then map_option Suc (tag_close [SP, SP] cs) else None)"

text \<open>
  \<^verbatim>\<open>String.prototype.replace\<close> with a global regular expression and the empty
  replacement: the matches are found from left to right, each search starting where the
  last match ended (one further after an empty match), and the text between them is kept.
\<close>

function js_replace_loop :: "matcher \<Rightarrow> jsstring \<Rightarrow> jsstring \<Rightarrow> jsstring" where
  "js_replace_loop m behind [] = []"
| "js_replace_loop m behind (c # cs) =
     (case m behind (c # cs) of
        None \<Rightarrow> c # js_replace_loop m (c # behind) cs
      | Some n \<Rightarrow>
          if n = 0 then c # js_replace_loop m (c # behind) cs
          else js_replace_loop m (rev (take n (c # cs)) @ behind) (drop n (c # cs)))"
  by pat_completeness auto
termination
  by (relation "measure (\<lambda>(m, behind, ahead). length ahead)") auto

definition js_replace :: "matcher \<Rightarrow> jsstring \<Rightarrow> jsstring" where
  "js_replace m s = js_replace_loop m [] s"

text \<open>
  \<^verbatim>\<open>String.prototype.split\<close> with a regular expression and no limit. The loop of
  the language definition keeps p, the end of the last separator, and q, the position
  tried; here \<open>piece\<close> is the text from p to q, reversed. A match at q whose end is p (an
  empty match right after a separator) only advances q; any other match closes the piece.
\<close>

function js_split_loop :: "matcher \<Rightarrow> jsstring \<Rightarrow> jsstring \<Rightarrow> jsstring \<Rightarrow> jsstring list" where
  "js_split_loop m piece behind [] = [rev piece]"
| "js_split_loop m piece behind (c # cs) =
     (case m behind (c # cs) of
        None \<Rightarrow> js_split_loop m (c # piece) (c # behind) cs
      | Some n \<Rightarrow>
          if n = 0 \<and> piece = [] then js_split_loop m (c # piece) (c # behind) cs
          else rev piece #
            js_split_loop m [] (rev (take n (c # cs)) @ behind) (drop n (c # cs)))"
  by pat_completeness auto
termination
  by (relation "measures [\<lambda>(m, piece, behind, ahead). length ahead,
                          \<lambda>(m, piece, behind, ahead). length piece]") auto

definition js_split :: "matcher \<Rightarrow> jsstring \<Rightarrow> jsstring list" where
  "js_split m s =
     (if s = [] then (case m [] [] of None \<Rightarrow> [[]] | Some n \<Rightarrow> [])
      else js_split_loop m [] [] s)"

text \<open>\<^verbatim>\<open>String.prototype.trim\<close>.\<close>

definition js_trim :: "jsstring \<Rightarrow> jsstring" where
  "js_trim s = rev (dropWhile is_space (rev (dropWhile is_space s)))"

text \<open>
  The bodies that \<^verbatim>\<open>processUserMessage\<close> hands to \<^verbatim>\<open>flowDynamic\<close>, in order
  (lines 29 to 32), and those of the voice note flow (lines 99 to 101).
\<close>

definition text_chunks :: "jsstring \<Rightarrow> jsstring list" where
  "text_chunks response =
     map (\<lambda>chunk. js_replace re_tag_spaces (js_trim chunk)) (js_split re_paragraph response)"

definition voice_chunks :: "jsstring \<Rightarrow> jsstring list" where
  "voice_chunks response =
     map (\<lambda>chunk. js_replace re_tag (js_trim chunk)) (js_split re_sentence response)"


section \<open>The module state and the flows of app.ts\<close>

type_synonym userId = jsstring
type_synonym path = jsstring

definition ascii :: "string \<Rightarrow> jsstring" where
  "ascii s = map (\<lambda>c. of_nat (of_char c)) s"

text \<open>
  \<^verbatim>\<open>path.resolve\<close> on a POSIX system, for one argument: a relative path is taken
  from the working directory of the process; empty and \<^verbatim>\<open>.\<close> segments are dropped
  and \<^verbatim>\<open>..\<close> removes the segment before it.
\<close>

fun segments :: "jsstring \<Rightarrow> jsstring \<Rightarrow> jsstring list" where
  "segments seg [] = [rev seg]"
| "segments seg (c # cs) = (if c = 0x2F then rev seg # segments [] cs else segments (c # seg) cs)"

fun normalize :: "jsstring list \<Rightarrow> jsstring list \<Rightarrow> jsstring list" where
  "normalize stack [] = rev stack"
| "normalize stack (seg # segs) =
     (if seg = [] \<or> seg = ascii ''.'' then normalize stack segs
      else if seg = ascii ''..'' then normalize (tl stack) segs
      else normalize (seg # stack) segs)"

definition path_resolve :: "path \<Rightarrow> path \<Rightarrow> path" where
  "path_resolve cwd p =
     (let full = (if p \<noteq> [] \<and> hd p = 0x2F then p else cwd @ 0x2F # p);
          segs = normalize [] (segments [] full)
      in if segs = [] then [0x2F] else concat (map (\<lambda>seg. 0x2F # seg) segs))"

text \<open>
  The context of an inbound message, as far as app.ts reads it: \<^verbatim>\<open>ctx.from\<close> and
  \<^verbatim>\<open>ctx.body\<close>.
\<close>

record ctx =
  ctx_from :: userId
  ctx_body :: jsstring

text \<open>
  The object that line 126 pushes: the context and the handles \<^verbatim>\<open>flowDynamic\<close>,
  \<^verbatim>\<open>state\<close> and \<^verbatim>\<open>provider\<close> that the framework gave to the activation of the
  flow, which the number of that activation stands for. The number is the identity of
  the object.
\<close>

record task =
  task_ctx :: ctx
  task_act :: nat

text \<open>
  How an awaited promise settles: fulfilled, with the string the code reads from it where
  it reads one (the response of \<^verbatim>\<open>toAsk\<close>, the path of \<^verbatim>\<open>saveFile\<close>, the text of
  the transcription), or rejected. An awaited call that throws is a rejection.
\<close>

datatype outcome = Resolve jsstring | Reject

text \<open>
  Modelled from the spec: \<^verbatim>\<open>typing\<close> and \<^verbatim>\<open>recording\<close> come from
  \<^verbatim>\<open>./utils/presence\<close>, which is not among the sources. The specification has them as
  \<^verbatim>\<open>signalPresence(userKey, kind)\<close> of the transport, an opaque and fallible call: here
  each is a call that the flow awaits, with its outcome given by the event that resumes
  the flow, like the calls into the framework and into the OpenAI client. None of them
  can reach \<^verbatim>\<open>userQueues\<close> or \<^verbatim>\<open>userLocks\<close>, which the module does not export.
\<close>

text \<open>
  The calls and the marked lines of the program, in the order in which they happen. The
  number in a label of the voice note flow is the activation of the flow.
\<close>

datatype label =
    Push task \<comment> \<open>line 126\<close>
  | Begin task \<comment> \<open>line 50, \<^verbatim>\<open>processUserMessage\<close> is called\<close>
  | Typing task \<comment> \<open>line 25\<close>
  | Ask task \<comment> \<open>line 26\<close>
  | Deliver task jsstring \<comment> \<open>line 32\<close>
  | LogError userId \<comment> \<open>line 52\<close>
  | End task \<comment> \<open>line 54, the finally block\<close>
  | SaveFile nat \<comment> \<open>line 92\<close>
  | Transcribe nat path \<comment> \<open>line 95\<close>
  | LogTranscription nat jsstring \<comment> \<open>line 96\<close>
  | VTyping nat \<comment> \<open>line 97\<close>
  | VAsk nat jsstring \<comment> \<open>line 98\<close>
  | VDeliver nat jsstring \<comment> \<open>line 101\<close>
  | SpeechCreate nat jsstring \<comment> \<open>line 70\<close>
  | ArrayBuffer nat \<comment> \<open>line 75\<close>
  | WriteFile nat path \<comment> \<open>line 76\<close>
  | LogPath nat path \<comment> \<open>line 105\<close>
  | Recording nat \<comment> \<open>line 106\<close>
  | UnlinkSource nat path \<comment> \<open>line 107, \<^verbatim>\<open>fs.unlink\<close> through \<^verbatim>\<open>deleteFile\<close>\<close>
  | LogAudioError nat \<comment> \<open>line 109\<close>
  | SendMedia nat path \<comment> \<open>line 112, the answer with the media attachment\<close>
  | UnlinkSpeech nat path \<comment> \<open>line 114, \<^verbatim>\<open>fs.unlink\<close> through \<^verbatim>\<open>deleteFile\<close>\<close>
  | LogDeleted path \<comment> \<open>line 84\<close>
  | LogDeleteError path \<comment> \<open>line 82\<close>

subsection \<open>processUserMessage\<close>

text \<open>
  An async function runs until its next \<^verbatim>\<open>await\<close> and is resumed when the awaited
  promise settles. Its state between two runs is the await it stands at.
\<close>

datatype ppc =
    AwaitTyping \<comment> \<open>line 25\<close>
  | AwaitAsk \<comment> \<open>line 26\<close>
  | AwaitSend "jsstring list" \<comment> \<open>line 32, with the bodies still to send\<close>

datatype pum_next = Continue ppc | Fulfilled | Rejected

fun processUserMessage :: "task \<Rightarrow> ppc \<Rightarrow> outcome \<Rightarrow> label list \<times> pum_next" where
  "processUserMessage t pc Reject = ([], Rejected)"
| "processUserMessage t AwaitTyping (Resolve v) = ([Ask t], Continue AwaitAsk)"
| "processUserMessage t AwaitAsk (Resolve response) =
     (case text_chunks response of
        [] \<Rightarrow> ([], Fulfilled)
      | c # cs \<Rightarrow> ([Deliver t c], Continue (AwaitSend cs)))"
| "processUserMessage t (AwaitSend []) (Resolve v) = ([], Fulfilled)"
| "processUserMessage t (AwaitSend (c # cs)) (Resolve v) = ([Deliver t c], Continue (AwaitSend cs))"

subsection \<open>The voice note flow\<close>

datatype vpc =
    AtSaveFile \<comment> \<open>line 92\<close>
  | AtTranscribe path \<comment> \<open>line 95\<close>
  | AtTyping path jsstring \<comment> \<open>line 97\<close>
  | AtAsk path \<comment> \<open>line 98\<close>
  | AtSend path jsstring "jsstring list" \<comment> \<open>line 101, with the response and the bodies still to send\<close>
  | AtSpeechCreate path \<comment> \<open>line 70\<close>
  | AtArrayBuffer path \<comment> \<open>line 75\<close>
  | AtWriteFile path \<comment> \<open>line 76\<close>
  | AtGenerateSpeech path bool \<comment> \<open>line 104, \<^verbatim>\<open>generateSpeech\<close> has settled\<close>
  | AtRecording path \<comment> \<open>line 106\<close>
  | AtDeleteFile \<comment> \<open>line 107\<close>
  | AtAnswer \<comment> \<open>line 112\<close>
  | AtDeleteSpeech \<comment> \<open>line 114\<close>

datatype drain_pc =
    InProcess ppc \<comment> \<open>inside \<^verbatim>\<open>processUserMessage\<close>\<close>
  | Settled bool \<comment> \<open>line 50, \<^verbatim>\<open>processUserMessage\<close> has settled\<close>

text \<open>
  An activation of a flow, or a pending callback: a \<open>Drain\<close> is an activation of the
  welcome flow inside \<^verbatim>\<open>handleQueue\<close>, with its \<^verbatim>\<open>userId\<close>, its local
  \<^verbatim>\<open>queue\<close> (a reference to an array) and the task it took from the queue.
\<close>

datatype thread =
    Drain userId nat task drain_pc
  | Voice ctx vpc
  | Unlinking path \<comment> \<open>line 80, the callback of \<^verbatim>\<open>fs.unlink\<close>\<close>
  | Finished
  | Crashed

text \<open>
  The steps of the voice note flow, for the activation \<open>v\<close>: the labels, the activation
  afterwards, and the file whose deletion was started. A rejection inside the first
  action is caught at line 108; the action then ends and the flow goes on to the answer
  of line 112 and to the action of line 113. The framework that runs the steps of a flow
  one after the other is not part of this repository; the model lets the flow go on
  whatever the answer's outcome.
\<close>

definition voice_catch :: "path \<Rightarrow> nat \<Rightarrow> ctx \<Rightarrow> label list \<times> thread \<times> path option" where
  "voice_catch sf v c = ([LogAudioError v, SendMedia v sf], Voice c AtAnswer, None)"

fun voice_send :: "nat \<Rightarrow> ctx \<Rightarrow> path \<Rightarrow> jsstring \<Rightarrow> jsstring list \<Rightarrow> label list \<times> thread \<times> path option" where
  "voice_send v c p response [] =
     ([SpeechCreate v (js_replace re_tag response)], Voice c (AtSpeechCreate p), None)"
| "voice_send v c p response (b # bs) = ([VDeliver v b], Voice c (AtSend p response bs), None)"

fun voiceNoteFlow :: "path \<Rightarrow> nat \<Rightarrow> ctx \<Rightarrow> vpc \<Rightarrow> outcome \<Rightarrow> label list \<times> thread \<times> path option" where
  "voiceNoteFlow sf v c AtSaveFile (Resolve p) = ([Transcribe v p], Voice c (AtTranscribe p), None)"
| "voiceNoteFlow sf v c (AtTranscribe p) (Resolve text) =
     ([LogTranscription v text, VTyping v], Voice c (AtTyping p text), None)"
| "voiceNoteFlow sf v c (AtTyping p text) (Resolve x) = ([VAsk v text], Voice c (AtAsk p), None)"
| "voiceNoteFlow sf v c (AtAsk p) (Resolve response) = voice_send v c p response (voice_chunks response)"
| "voiceNoteFlow sf v c (AtSend p response bs) (Resolve x) = voice_send v c p response bs"
| "voiceNoteFlow sf v c (AtSpeechCreate p) (Resolve x) = ([ArrayBuffer v], Voice c (AtArrayBuffer p), None)"
| "voiceNoteFlow sf v c (AtSpeechCreate p) Reject = ([], Voice c (AtGenerateSpeech p False), None)"
| "voiceNoteFlow sf v c (AtArrayBuffer p) (Resolve x) = ([WriteFile v sf], Voice c (AtWriteFile p), None)"
| "voiceNoteFlow sf v c (AtArrayBuffer p) Reject = ([], Voice c (AtGenerateSpeech p False), None)"
| "voiceNoteFlow sf v c (AtWriteFile p) (Resolve x) = ([], Voice c (AtGenerateSpeech p True), None)"
| "voiceNoteFlow sf v c (AtWriteFile p) Reject = ([], Voice c (AtGenerateSpeech p False), None)"
| "voiceNoteFlow sf v c (AtGenerateSpeech p ok) out =
     (if ok then ([LogPath v sf, Recording v], Voice c (AtRecording p), None) else voice_catch sf v c)"
| "voiceNoteFlow sf v c (AtRecording p) (Resolve x) = ([UnlinkSource v p], Voice c AtDeleteFile, Some p)"
| "voiceNoteFlow sf v c AtDeleteFile out = ([SendMedia v sf], Voice c AtAnswer, None)"
| "voiceNoteFlow sf v c AtAnswer out = ([UnlinkSpeech v sf], Voice c AtDeleteSpeech, Some sf)"
| "voiceNoteFlow sf v c AtDeleteSpeech out = ([], Finished, None)"
| "voiceNoteFlow sf v c pc Reject = voice_catch sf v c"

subsection \<open>The module state\<close>

text \<open>
  The constants of the module (lines 11, 17 and 18), the arrays that line 122 creates,
  by address, the activations and pending callbacks, and the trace of labels.
\<close>

record sys =
  speechFile :: path
  userQueues :: "userId \<rightharpoonup> nat"
  userLocks :: "userId \<rightharpoonup> bool"
  arrays :: "task list list"
  threads :: "thread list"
  trace :: "label list"

definition init :: "path \<Rightarrow> sys" where
  "init cwd = \<lparr> speechFile = path_resolve cwd (ascii ''./assets/audio_bot/speech.mp3''),
     userQueues = Map.empty, userLocks = Map.empty, arrays = [], threads = [], trace = [] \<rparr>"

subsection \<open>handleQueue\<close>

text \<open>
  How a run of \<^verbatim>\<open>handleQueue\<close> ends: suspended at line 50, returned, or thrown out
  of (reading \<^verbatim>\<open>length\<close> of \<^verbatim>\<open>undefined\<close> at line 46).
\<close>

datatype hq_result = Suspended nat task ppc | Returned | Thrown

text \<open>
  The loop of lines 46 to 59, from its test to the next await or to the return. No
  reference of the program dangles; the model gives the address of no array the result
  of \<^verbatim>\<open>undefined\<close>.
\<close>

definition hq_loop :: "userId \<Rightarrow> nat option \<Rightarrow> sys \<Rightarrow> hq_result \<times> sys" where
  "hq_loop userId queue s =
     (case queue of
        None \<Rightarrow> (Thrown, s)
      | Some a \<Rightarrow>
          if length (arrays s) \<le> a then (Thrown, s)
          else (case arrays s ! a of
              [] \<Rightarrow> (Returned, s\<lparr> userLocks := (userLocks s)(userId := None),
                                  userQueues := (userQueues s)(userId := None) \<rparr>)
            | t # rest \<Rightarrow>
                (Suspended a t AwaitTyping,
                 s\<lparr> userLocks := (userLocks s)(userId \<mapsto> True),
                    arrays := (arrays s)[a := rest],
                    trace := trace s @ [Begin t, Typing t] \<rparr>)))"

definition handleQueue :: "userId \<Rightarrow> sys \<Rightarrow> hq_result \<times> sys" where
  "handleQueue userId s =
     (let queue = userQueues s userId
      in if userLocks s userId = Some True then (Returned, s) else hq_loop userId queue s)"

text \<open>Lines 51 to 55, once the promise awaited at line 50 has settled.\<close>

definition hq_finally :: "userId \<Rightarrow> task \<Rightarrow> bool \<Rightarrow> sys \<Rightarrow> sys" where
  "hq_finally userId t ok s =
     s\<lparr> userLocks := (userLocks s)(userId \<mapsto> False),
        trace := trace s @ (if ok then [] else [LogError userId]) @ [End t] \<rparr>"

definition hq_settled :: "userId \<Rightarrow> nat \<Rightarrow> task \<Rightarrow> bool \<Rightarrow> sys \<Rightarrow> hq_result \<times> sys" where
  "hq_settled userId a t ok s = hq_loop userId (Some a) (hq_finally userId t ok s)"

fun after_hq :: "userId \<Rightarrow> hq_result \<Rightarrow> thread" where
  "after_hq userId (Suspended a t pc) = Drain userId a t (InProcess pc)"
| "after_hq userId Returned = Finished"
| "after_hq userId Thrown = Crashed"

subsection \<open>The welcome flow\<close>

text \<open>Lines 119 to 131, for the activation whose number is the next free one.\<close>

definition welcomeFlow :: "ctx \<Rightarrow> sys \<Rightarrow> sys" where
  "welcomeFlow c s =
     (let userId = ctx_from c;
          t = \<lparr> task_ctx = c, task_act = length (threads s) \<rparr>;
          s1 = (if userQueues s userId = None
                then s\<lparr> arrays := arrays s @ [[]],
                        userQueues := (userQueues s)(userId \<mapsto> length (arrays s)) \<rparr>
                else s)
      in case userQueues s1 userId of
           None \<Rightarrow> s1\<lparr> threads := threads s1 @ [Crashed] \<rparr>
         | Some a \<Rightarrow>
             let s2 = s1\<lparr> arrays := (arrays s1)[a := arrays s1 ! a @ [t]],
                          trace := trace s1 @ [Push t] \<rparr>
             in if userLocks s2 userId \<noteq> Some True \<and> length (arrays s2 ! a) = 1
                then (case handleQueue userId s2 of
                        (r, s3) \<Rightarrow> s3\<lparr> threads := threads s3 @ [after_hq userId r] \<rparr>)
                else s2\<lparr> threads := threads s2 @ [Finished] \<rparr>)"

subsection \<open>The event loop\<close>

text \<open>
  One run of the event loop: an inbound message starts a flow, or a pending promise or
  callback settles and the code that waits for it runs to its next await. Nothing else
  runs in between: the program has one thread.
\<close>

datatype event = Welcome ctx | VoiceNote ctx | Settle nat outcome

fun resume :: "nat \<Rightarrow> thread \<Rightarrow> outcome \<Rightarrow> sys \<Rightarrow> sys" where
  "resume i (Drain userId a t (InProcess pc)) out s =
     (case processUserMessage t pc out of
        (ls, nx) \<Rightarrow>
          s\<lparr> threads := (threads s)[i := Drain userId a t
                 (case nx of Continue pc' \<Rightarrow> InProcess pc'
                           | Fulfilled \<Rightarrow> Settled True
                           | Rejected \<Rightarrow> Settled False)],
             trace := trace s @ ls \<rparr>)"
| "resume i (Drain userId a t (Settled ok)) out s =
     (case hq_settled userId a t ok s of
        (r, s') \<Rightarrow> s'\<lparr> threads := (threads s')[i := after_hq userId r] \<rparr>)"
| "resume i (Voice c pc) out s =
     (case voiceNoteFlow (speechFile s) i c pc out of
        (ls, th, unl) \<Rightarrow>
          s\<lparr> threads := (threads s)[i := th] @ (case unl of None \<Rightarrow> [] | Some p \<Rightarrow> [Unlinking p]),
             trace := trace s @ ls \<rparr>)"
| "resume i (Unlinking p) out s =
     s\<lparr> threads := (threads s)[i := Finished],
        trace := trace s @ [case out of Resolve v \<Rightarrow> LogDeleted p | Reject \<Rightarrow> LogDeleteError p] \<rparr>"
| "resume i Finished out s = s"
| "resume i Crashed out s = s"

fun step :: "event \<Rightarrow> sys \<Rightarrow> sys" where
  "step (Welcome c) s = welcomeFlow c s"
| "step (VoiceNote c) s =
     s\<lparr> threads := threads s @ [Voice c AtSaveFile],
        trace := trace s @ [SaveFile (length (threads s))] \<rparr>"
| "step (Settle i out) s = (if i < length (threads s) then resume i (threads s ! i) out s else s)"

definition run :: "event list \<Rightarrow> sys \<Rightarrow> sys" where
  "run es s = fold step es s"

text \<open>
  Inside the processing step for a user: between the typing signal and the last chunk
  delivered, in the welcome flow and in the voice note flow.
\<close>

fun queued_processing :: "userId \<Rightarrow> thread \<Rightarrow> bool" where
  "queued_processing u (Drain userId a t (InProcess pc)) = (userId = u)"
| "queued_processing u th = False"

fun voice_processing :: "userId \<Rightarrow> thread \<Rightarrow> bool" where
  "voice_processing u (Voice c (AtTyping p text)) = (ctx_from c = u)"
| "voice_processing u (Voice c (AtAsk p)) = (ctx_from c = u)"
| "voice_processing u (Voice c (AtSend p response bs)) = (ctx_from c = u)"
| "voice_processing u th = False"

definition processing :: "userId \<Rightarrow> thread \<Rightarrow> bool" where
  "processing u th = (queued_processing u th \<or> voice_processing u th)"

section \<open>Notions used in the statements\<close>

text \<open>
  A sentence boundary of a response, in the words of the specification: a period followed
  by white space, whose period no digit precedes. The separator runs from the period to
  the end of the white space; the pieces of a response cut at given boundaries are what
  lies between the separators.
\<close>

definition sentence_boundary :: "jsstring \<Rightarrow> nat \<Rightarrow> bool" where
  "sentence_boundary s q =
     (Suc q < length s \<and> s ! q = DOT \<and> is_space (s ! Suc q) \<and> \<not> (0 < q \<and> is_digit (s ! (q - 1))))"

definition separator_end :: "jsstring \<Rightarrow> nat \<Rightarrow> nat" where
  "separator_end s q = Suc q + length (takeWhile is_space (drop (Suc q) s))"

fun pieces_at :: "jsstring \<Rightarrow> nat \<Rightarrow> nat list \<Rightarrow> jsstring list" where
  "pieces_at s p [] = [drop p s]"
| "pieces_at s p (q # qs) = take (q - p) (drop p s) # pieces_at s (separator_end s q) qs"

text \<open>The drain of a user.\<close>

fun drains :: "userId \<Rightarrow> thread \<Rightarrow> bool" where
  "drains u (Drain userId a t pc) = (userId = u)"
| "drains u th = False"

text \<open>
  The tasks pushed and the tasks whose finally block has run, of one user, in the order of
  the trace.
\<close>

fun pushed :: "label \<Rightarrow> task list" where
  "pushed (Push t) = [t]"
| "pushed l = []"

fun ended :: "label \<Rightarrow> task list" where
  "ended (End t) = [t]"
| "ended l = []"

definition task_user :: "task \<Rightarrow> userId" where
  "task_user t = ctx_from (task_ctx t)"

definition pushes :: "userId \<Rightarrow> label list \<Rightarrow> task list" where
  "pushes u tr = filter (\<lambda>t. task_user t = u) (concat (map pushed tr))"

definition ends :: "userId \<Rightarrow> label list \<Rightarrow> task list" where
  "ends u tr = filter (\<lambda>t. task_user t = u) (concat (map ended tr))"

definition all_pushed :: "label list \<Rightarrow> task list" where
  "all_pushed tr = concat (map pushed tr)"

text \<open>
  The registry and the drains agree: a drain holds the lock and the queue of its user,
  the tasks pushed for the user are those finished, the one in the drain's hands, and
  those in the array, in this order; no user has two drains; a user without a drain has
  no entry; no two users share an array; every task is pushed once.
\<close>

definition registry_inv :: "sys \<Rightarrow> bool" where
  "registry_inv s \<longleftrightarrow>
     (\<forall>i u a t pc. i < length (threads s) \<longrightarrow> threads s ! i = Drain u a t pc \<longrightarrow>
        userQueues s u = Some a \<and> userLocks s u = Some True \<and> a < length (arrays s) \<and>
        pushes u (trace s) = ends u (trace s) @ t # arrays s ! a) \<and>
     (\<forall>i j u. i < length (threads s) \<longrightarrow> j < length (threads s) \<longrightarrow>
        drains u (threads s ! i) \<longrightarrow> drains u (threads s ! j) \<longrightarrow> i = j) \<and>
     (\<forall>u. (\<forall>i<length (threads s). \<not> drains u (threads s ! i)) \<longrightarrow>
        userQueues s u = None \<and> userLocks s u = None \<and> pushes u (trace s) = ends u (trace s)) \<and>
     (\<forall>u u' a. userQueues s u = Some a \<longrightarrow> userQueues s u' = Some a \<longrightarrow> u = u') \<and>
     (\<forall>t\<in>set (all_pushed (trace s)). task_act t < length (threads s)) \<and>
     distinct (all_pushed (trace s))"

text \<open>Labels that push no task and close none.\<close>

definition quiet :: "label list \<Rightarrow> bool" where
  "quiet ls \<longleftrightarrow> (\<forall>l\<in>set ls. pushed l = [] \<and> ended l = [])"

text \<open>Every occurrence of the label \<open>B\<close> in a trace comes after an occurrence of \<open>A\<close>.\<close>

definition precedes :: "label \<Rightarrow> label \<Rightarrow> label list \<Rightarrow> bool" where
  "precedes A B tr \<longleftrightarrow> (\<forall>k<length tr. tr ! k = B \<longrightarrow> (\<exists>m<k. tr ! m = A))"

text \<open>Labels among which no task begins.\<close>

definition no_begin :: "label list \<Rightarrow> bool" where
  "no_begin ls \<longleftrightarrow> (\<forall>l\<in>set ls. \<forall>b. l \<noteq> Begin b)"

text \<open>
  The labels of the voice activation \<open>v\<close> that tell what becomes of its files: the
  transcription of the saved source file (line 95), the recording signal (line 106), the
  deletion of the source file (line 107), the error logged by the catch block (line 109),
  the answer with the media (line 112) and the deletion of the speech file (line 114).
\<close>

fun concerns :: "nat \<Rightarrow> label \<Rightarrow> bool" where
  "concerns v (Transcribe v' p) = (v' = v)"
| "concerns v (Recording v') = (v' = v)"
| "concerns v (UnlinkSource v' p) = (v' = v)"
| "concerns v (LogAudioError v') = (v' = v)"
| "concerns v (SendMedia v' p) = (v' = v)"
| "concerns v (UnlinkSpeech v' p) = (v' = v)"
| "concerns v l = False"

definition vtrace :: "nat \<Rightarrow> label list \<Rightarrow> label list" where
  "vtrace v tr = filter (concerns v) tr"


text \<open>The labels of an activation that has just issued its answer.\<close>

definition answered :: "path \<Rightarrow> nat \<Rightarrow> label list \<Rightarrow> bool" where
  "answered sf v vt \<longleftrightarrow>
     (\<exists>p. vt = [Transcribe v p, Recording v, UnlinkSource v p, SendMedia v sf] \<or>
          vt = [Transcribe v p, Recording v, LogAudioError v, SendMedia v sf] \<or>
          vt = [Transcribe v p, LogAudioError v, SendMedia v sf]) \<or>
     vt = [LogAudioError v, SendMedia v sf]"

text \<open>What an activation has done about its files, by the place it stands at.\<close>

fun vphase_ok :: "path \<Rightarrow> nat \<Rightarrow> thread \<Rightarrow> label list \<Rightarrow> bool" where
  "vphase_ok sf v (Voice c AtSaveFile) vt = (vt = [])"
| "vphase_ok sf v (Voice c (AtTranscribe p)) vt = (vt = [Transcribe v p])"
| "vphase_ok sf v (Voice c (AtTyping p text)) vt = (vt = [Transcribe v p])"
| "vphase_ok sf v (Voice c (AtAsk p)) vt = (vt = [Transcribe v p])"
| "vphase_ok sf v (Voice c (AtSend p response bs)) vt = (vt = [Transcribe v p])"
| "vphase_ok sf v (Voice c (AtSpeechCreate p)) vt = (vt = [Transcribe v p])"
| "vphase_ok sf v (Voice c (AtArrayBuffer p)) vt = (vt = [Transcribe v p])"
| "vphase_ok sf v (Voice c (AtWriteFile p)) vt = (vt = [Transcribe v p])"
| "vphase_ok sf v (Voice c (AtGenerateSpeech p ok)) vt = (vt = [Transcribe v p])"
| "vphase_ok sf v (Voice c (AtRecording p)) vt = (vt = [Transcribe v p, Recording v])"
| "vphase_ok sf v (Voice c AtDeleteFile) vt =
     (\<exists>p. vt = [Transcribe v p, Recording v, UnlinkSource v p])"
| "vphase_ok sf v (Voice c AtAnswer) vt = answered sf v vt"
| "vphase_ok sf v (Voice c AtDeleteSpeech) vt =
     (\<exists>vt'. answered sf v vt' \<and> vt = vt' @ [UnlinkSpeech v sf])"
| "vphase_ok sf v Finished vt =
     (vt = [] \<or> (\<exists>vt'. answered sf v vt' \<and> vt = vt' @ [UnlinkSpeech v sf]))"
| "vphase_ok sf v th vt = (vt = [])"

definition voice_inv :: "sys \<Rightarrow> bool" where
  "voice_inv s \<longleftrightarrow>
     (\<forall>v. if v < length (threads s)
          then vphase_ok (speechFile s) v (threads s ! v) (vtrace v (trace s))
          else vtrace v (trace s) = [])"

text \<open>
  Labels that are about no file of a voice activation, and the labels that name the file
  of the synthesized speech with the path they must carry.
\<close>

definition silent :: "label list \<Rightarrow> bool" where
  "silent ls \<longleftrightarrow> (\<forall>l\<in>set ls. \<forall>v. \<not> concerns v l \<and> (\<forall>p. l \<noteq> WriteFile v p))"

fun speech_path_ok :: "path \<Rightarrow> label \<Rightarrow> bool" where
  "speech_path_ok sf (WriteFile v p) = (p = sf)"
| "speech_path_ok sf (SendMedia v p) = (p = sf)"
| "speech_path_ok sf l = True"

text \<open>The places of an activation that has done nothing about its files yet.\<close>

fun fresh_thread :: "thread \<Rightarrow> bool" where
  "fresh_thread (Voice c pc) = (pc = AtSaveFile)"
| "fresh_thread th = True"


text \<open>
  What a drain adds to the trace when the task in its hands and every task of its queue
  fail: each failure is logged and closed by the finally block, and the next task begins.
\<close>

fun fail_trace :: "userId \<Rightarrow> task \<Rightarrow> task list \<Rightarrow> label list" where
  "fail_trace u t [] = [LogError u, End t]"
| "fail_trace u t (t' # rest) = [LogError u, End t, Begin t', Typing t'] @ fail_trace u t' rest"

text \<open>
  The settlements that a run of events brings to the activation \<open>i\<close>, in order, and the
  labels that the activation adds to the trace when it is resumed by them, whatever the
  other activations do in between.
\<close>

fun settles :: "nat \<Rightarrow> event list \<Rightarrow> outcome list" where
  "settles i [] = []"
| "settles i (Settle j out # es) = (if j = i then out # settles i es else settles i es)"
| "settles i (e # es) = settles i es"

fun emitted :: "nat \<Rightarrow> event list \<Rightarrow> sys \<Rightarrow> label list" where
  "emitted i [] s = []"
| "emitted i (Settle j out # es) s =
     (if j = i then drop (length (trace s)) (trace (step (Settle j out) s)) else []) @
     emitted i es (step (Settle j out) s)"
| "emitted i (e # es) s = emitted i es (step e s)"

section \<open>Splitting, trimming and replacing\<close>

lemma lookbehind_take:
  "q \<le> length s \<Longrightarrow>
   (case rev (take q s) of [] \<Rightarrow> False | p # _ \<Rightarrow> P p) = (0 < q \<and> P (s ! (q - 1)))"
  by (cases q) (simp_all add: take_Suc_conv_app_nth)

lemma not_space_DOT: "\<not> is_space DOT"
  by (simp add: is_space_def DOT_def)

lemma re_sentence_at:
  assumes "q < length s"
  shows "re_sentence (rev (take q s)) (drop q s) =
     (if sentence_boundary s q then Some (separator_end s q - q) else None)"
proof (cases "Suc q < length s")
  case True
  have d: "drop q s = s ! q # s ! Suc q # drop (Suc (Suc q)) s"
    using True assms by (simp add: Cons_nth_drop_Suc)
  have d': "drop (Suc q) s = s ! Suc q # drop (Suc (Suc q)) s"
    using True by (simp add: Cons_nth_drop_Suc)
  show ?thesis
    using True assms
    by (simp add: d sentence_boundary_def separator_end_def lookbehind_take d')
next
  case False
  then have "drop q s = [s ! q]"
    using assms by (metis Cons_nth_drop_Suc Suc_lessI drop_all le_refl)
  then show ?thesis using False by (simp add: sentence_boundary_def)
qed

lemma separator_end_le: "Suc q < length s \<Longrightarrow> separator_end s q \<le> length s"
proof -
  assume a: "Suc q < length s"
  have "length (takeWhile is_space (drop (Suc q) s)) \<le> length (drop (Suc q) s)"
    by (rule length_takeWhile_le)
  then show ?thesis using a by (simp add: separator_end_def)
qed

lemma separator_spaces:
  assumes "Suc q \<le> j" "j < separator_end s q"
  shows "is_space (s ! j)"
proof -
  let ?t = "takeWhile is_space (drop (Suc q) s)"
  have j: "j - Suc q < length ?t" using assms by (simp add: separator_end_def)
  then have "?t ! (j - Suc q) \<in> set ?t" by (rule nth_mem)
  then have "is_space (?t ! (j - Suc q))" by (rule set_takeWhileD[THEN conjunct2])
  moreover have "?t ! (j - Suc q) = drop (Suc q) s ! (j - Suc q)"
    using j by (rule takeWhile_nth)
  moreover have "j - Suc q < length (drop (Suc q) s)"
    using j length_takeWhile_le[of is_space "drop (Suc q) s"] by linarith
  ultimately show ?thesis using assms by simp
qed

lemma no_boundary_in_separator:
  "filter (sentence_boundary s) [Suc q..<separator_end s q] = []"
  by (auto simp: filter_empty_conv sentence_boundary_def dest!: separator_spaces[of q _ s] simp: not_space_DOT)

lemma split_sentence_loop:
  "p \<le> q \<Longrightarrow> q \<le> length s \<Longrightarrow>
   js_split_loop re_sentence (rev (take (q - p) (drop p s))) (rev (take q s)) (drop q s) =
   pieces_at s p (filter (sentence_boundary s) [q..<length s])"
proof (induction "length s - q" arbitrary: p q rule: less_induct)
  case less
  show ?case
  proof (cases "q < length s")
    case False
    with less.prems show ?thesis by simp
  next
    case True
    then have d: "drop q s = s ! q # drop (Suc q) s" by (simp add: Cons_nth_drop_Suc)
    have m: "re_sentence (rev (take q s)) (s ! q # drop (Suc q) s) =
       (if sentence_boundary s q then Some (separator_end s q - q) else None)"
      using re_sentence_at[OF True] d by simp
    have u: "[q..<length s] = q # [Suc q..<length s]" using True by (simp add: upt_conv_Cons)
    show ?thesis
    proof (cases "sentence_boundary s q")
      case False
      have piece: "s ! q # rev (take (q - p) (drop p s)) = rev (take (Suc q - p) (drop p s))"
        using less.prems True by (simp add: Suc_diff_le take_Suc_conv_app_nth)
      have beh: "s ! q # rev (take q s) = rev (take (Suc q) s)"
        using True by (simp add: take_Suc_conv_app_nth)
      have "js_split_loop re_sentence (rev (take (Suc q - p) (drop p s))) (rev (take (Suc q) s)) (drop (Suc q) s)
          = pieces_at s p (filter (sentence_boundary s) [Suc q..<length s])"
        using less.prems True by (intro less.hyps) auto
      then show ?thesis using False by (simp add: d m u piece beh)
    next
      case B: True
      let ?e = "separator_end s q"
      let ?n = "?e - q"
      have sq: "Suc q < length s" using B by (simp add: sentence_boundary_def)
      have e: "?e \<le> length s" using sq by (rule separator_end_le)
      have qe: "Suc q < ?e" using B sq
        by (cases "drop (Suc q) s") (auto simp: separator_end_def sentence_boundary_def Cons_nth_drop_Suc[symmetric])
      have n0: "?n \<noteq> 0" using qe by simp
      have dn: "drop ?n (s ! q # drop (Suc q) s) = drop ?e s"
        using qe by (simp add: d[symmetric])
      have tn: "rev (take ?n (s ! q # drop (Suc q) s)) @ rev (take q s) = rev (take ?e s)"
      proof -
        have "take ?e s = take q s @ take ?n (drop q s)"
          using qe take_add[of q ?n s] by simp
        then show ?thesis by (simp add: d)
      qed
      have ih: "js_split_loop re_sentence (rev (take (?e - ?e) (drop ?e s))) (rev (take ?e s)) (drop ?e s)
          = pieces_at s ?e (filter (sentence_boundary s) [?e..<length s])"
        using e qe True by (intro less.hyps) auto
      have "[Suc q..<length s] = [Suc q..<?e] @ [?e..<length s]"
        using e qe upt_add_eq_append[of "Suc q" ?e "length s - ?e"] by simp
      then have f: "filter (sentence_boundary s) [Suc q..<length s] = filter (sentence_boundary s) [?e..<length s]"
        by (simp add: no_boundary_in_separator)
      show ?thesis using B n0 ih by (simp add: d m u dn tn f del: drop_Suc_Cons take_Suc_Cons)
    qed
  qed
qed







text \<open>The pattern of the voice note flow leaves no match of itself behind.\<close>

lemma tag_close_replace:
  "tag_close [] cs = None \<Longrightarrow> tag_close [] (js_replace_loop re_tag b cs) = None"
proof (induction cs arbitrary: b)
  case Nil
  then show ?case by simp
next
  case (Cons c cs)
  from Cons.prems have c: "c \<noteq> RB" and d: "is_line_terminator c \<or> tag_close [] cs = None"
    by (auto split: if_splits)
  have lt: "\<not> is_line_terminator LB" by (simp add: is_line_terminator_def LB_def)
  have m: "re_tag b (c # cs) = None" using d lt by auto
  show ?case
  proof (cases "is_line_terminator c")
    case True
    then show ?thesis using c m by simp
  next
    case False
    with d have "tag_close [] cs = None" by simp
    from Cons.IH[OF this] show ?thesis using c False m by simp
  qed
qed

lemma replace_tag_clean:
  "js_replace_loop re_tag b s = pre @ suf \<Longrightarrow> re_tag b' suf = None"
proof (induction "length s" arbitrary: s b pre suf rule: less_induct)
  case less
  show ?case
  proof (cases s)
    case Nil
    with less.prems show ?thesis by simp
  next
    case (Cons c cs)
    show ?thesis
    proof (cases "re_tag b (c # cs)")
      case None
      then have r: "c # js_replace_loop re_tag (c # b) cs = pre @ suf"
        using less.prems Cons by simp
      show ?thesis
      proof (cases pre)
        case Nil
        then have suf: "suf = c # js_replace_loop re_tag (c # b) cs" using r by simp
        show ?thesis
        proof (cases "c = LB")
          case True
          then have "tag_close [] cs = None" using None by simp
          from tag_close_replace[OF this] show ?thesis using suf by simp
        next
          case False
          then show ?thesis using suf by simp
        qed
      next
        case (Cons p ps)
        then have "js_replace_loop re_tag (c # b) cs = ps @ suf" using r by auto
        moreover have "length cs < length s" using \<open>s = c # cs\<close> by simp
        ultimately show ?thesis using less.hyps by blast
      qed
    next
      case (Some n)
      then have n: "0 < n" by (cases "c = LB") (auto split: if_splits)
      then have "js_replace_loop re_tag (rev (take n (c # cs)) @ b) (drop n (c # cs)) = pre @ suf"
        using less.prems Cons Some by simp
      moreover have "length (drop n (c # cs)) < length s" using n Cons by simp
      ultimately show ?thesis using less.hyps by blast
    qed
  qed
qed

lemma voice_chunks_no_marker:
  "c \<in> set (voice_chunks r) \<Longrightarrow> c = pre @ suf \<Longrightarrow> re_tag b suf = None"
proof -
  assume "c \<in> set (voice_chunks r)" "c = pre @ suf"
  then obtain p where "js_replace_loop re_tag [] (js_trim p) = pre @ suf"
    by (auto simp: voice_chunks_def js_replace_def)
  then show ?thesis by (rule replace_tag_clean)
qed


section \<open>The invariant of the registry\<close>

lemma pushes_append [simp]: "pushes u (xs @ ys) = pushes u xs @ pushes u ys"
  by (simp add: pushes_def)

lemma ends_append [simp]: "ends u (xs @ ys) = ends u xs @ ends u ys"
  by (simp add: ends_def)

lemma pushes_Nil [simp]: "pushes u [] = []"
  by (simp add: pushes_def)

lemma ends_Nil [simp]: "ends u [] = []"
  by (simp add: ends_def)

lemma pushes_Cons [simp]: "pushes u (l # ls) = filter (\<lambda>t. task_user t = u) (pushed l) @ pushes u ls"
  by (simp add: pushes_def)

lemma ends_Cons [simp]: "ends u (l # ls) = filter (\<lambda>t. task_user t = u) (ended l) @ ends u ls"
  by (simp add: ends_def)

lemma welcomeFlow_absent:
  assumes "userQueues s (ctx_from c) = None" "userLocks s (ctx_from c) \<noteq> Some True"
  shows "welcomeFlow c s =
     s\<lparr> arrays := arrays s @ [[]],
        userQueues := (userQueues s)(ctx_from c \<mapsto> length (arrays s)),
        userLocks := (userLocks s)(ctx_from c \<mapsto> True),
        trace := trace s @ [Push \<lparr> task_ctx = c, task_act = length (threads s) \<rparr>,
                            Begin \<lparr> task_ctx = c, task_act = length (threads s) \<rparr>,
                            Typing \<lparr> task_ctx = c, task_act = length (threads s) \<rparr>],
        threads := threads s @ [Drain (ctx_from c) (length (arrays s))
                     \<lparr> task_ctx = c, task_act = length (threads s) \<rparr> (InProcess AwaitTyping)] \<rparr>"
  using assms by (simp add: welcomeFlow_def handleQueue_def hq_loop_def Let_def)

lemma welcomeFlow_draining:
  assumes "userQueues s (ctx_from c) = Some a" "userLocks s (ctx_from c) = Some True"
  shows "welcomeFlow c s =
     s\<lparr> arrays := (arrays s)[a := arrays s ! a @ [\<lparr> task_ctx = c, task_act = length (threads s) \<rparr>]],
        trace := trace s @ [Push \<lparr> task_ctx = c, task_act = length (threads s) \<rparr>],
        threads := threads s @ [Finished] \<rparr>"
  using assms by (simp add: welcomeFlow_def Let_def)

lemma hq_settled_empty:
  assumes "a < length (arrays s)" "arrays s ! a = []"
  shows "hq_settled u a t ok s =
     (Returned, s\<lparr> userLocks := (userLocks s)(u := None),
                   userQueues := (userQueues s)(u := None),
                   trace := trace s @ (if ok then [] else [LogError u]) @ [End t] \<rparr>)"
  using assms by (simp add: hq_settled_def hq_finally_def hq_loop_def)

lemma hq_settled_next:
  assumes "a < length (arrays s)" "arrays s ! a = t' # rest"
  shows "hq_settled u a t ok s =
     (Suspended a t' AwaitTyping,
      s\<lparr> userLocks := (userLocks s)(u \<mapsto> True),
         arrays := (arrays s)[a := rest],
         trace := trace s @ (if ok then [] else [LogError u]) @ [End t, Begin t', Typing t'] \<rparr>)"
  using assms by (simp add: hq_settled_def hq_finally_def hq_loop_def)


lemma all_pushed_append [simp]: "all_pushed (xs @ ys) = all_pushed xs @ all_pushed ys"
  by (simp add: all_pushed_def)

lemma all_pushed_simps [simp]:
  "all_pushed [] = []" "all_pushed (l # ls) = pushed l @ all_pushed ls"
  by (simp_all add: all_pushed_def)

lemma inv_init: "registry_inv (init cwd)"
  by (simp add: registry_inv_def init_def)

lemma quiet_pushes: "quiet ls \<Longrightarrow> pushes u ls = []"
  by (induction ls) (auto simp: quiet_def)

lemma quiet_ends: "quiet ls \<Longrightarrow> ends u ls = []"
  by (induction ls) (auto simp: quiet_def)

lemma quiet_all_pushed: "quiet ls \<Longrightarrow> all_pushed ls = []"
  by (induction ls) (auto simp: quiet_def)

lemma invD_drain:
  "registry_inv s \<Longrightarrow> i < length (threads s) \<Longrightarrow> threads s ! i = Drain u a t pc \<Longrightarrow>
   userQueues s u = Some a \<and> userLocks s u = Some True \<and> a < length (arrays s) \<and>
   pushes u (trace s) = ends u (trace s) @ t # arrays s ! a"
  unfolding registry_inv_def by blast

lemma invD_unique:
  "registry_inv s \<Longrightarrow> i < length (threads s) \<Longrightarrow> j < length (threads s) \<Longrightarrow>
   drains u (threads s ! i) \<Longrightarrow> drains u (threads s ! j) \<Longrightarrow> i = j"
  unfolding registry_inv_def by blast

lemma invD_idle:
  "registry_inv s \<Longrightarrow> (\<And>i. i < length (threads s) \<Longrightarrow> \<not> drains u (threads s ! i)) \<Longrightarrow>
   userQueues s u = None \<and> userLocks s u = None \<and> pushes u (trace s) = ends u (trace s)"
  unfolding registry_inv_def by blast

lemma invD_inj:
  "registry_inv s \<Longrightarrow> userQueues s u = Some a \<Longrightarrow> userQueues s u' = Some a \<Longrightarrow> u = u'"
  unfolding registry_inv_def by blast

lemma invD_fresh:
  "registry_inv s \<Longrightarrow> t \<in> set (all_pushed (trace s)) \<Longrightarrow> task_act t < length (threads s)"
  unfolding registry_inv_def by blast

lemma invD_distinct: "registry_inv s \<Longrightarrow> distinct (all_pushed (trace s))"
  unfolding registry_inv_def by blast

lemma invI:
  assumes "\<And>i u a t pc. i < length (threads s) \<Longrightarrow> threads s ! i = Drain u a t pc \<Longrightarrow>
        userQueues s u = Some a \<and> userLocks s u = Some True \<and> a < length (arrays s) \<and>
        pushes u (trace s) = ends u (trace s) @ t # arrays s ! a"
    and "\<And>i j u. i < length (threads s) \<Longrightarrow> j < length (threads s) \<Longrightarrow>
        drains u (threads s ! i) \<Longrightarrow> drains u (threads s ! j) \<Longrightarrow> i = j"
    and "\<And>u. (\<forall>i<length (threads s). \<not> drains u (threads s ! i)) \<Longrightarrow>
        userQueues s u = None \<and> userLocks s u = None \<and> pushes u (trace s) = ends u (trace s)"
    and "\<And>u u' a. userQueues s u = Some a \<Longrightarrow> userQueues s u' = Some a \<Longrightarrow> u = u'"
    and "\<And>t. t \<in> set (all_pushed (trace s)) \<Longrightarrow> task_act t < length (threads s)"
    and "distinct (all_pushed (trace s))"
  shows "registry_inv s"
  unfolding registry_inv_def using assms by blast

lemma drains_Drain: "drains u th \<Longrightarrow> \<exists>a t pc. th = Drain u a t pc"
  by (cases th) auto

text \<open>A step of an activation that is no drain.\<close>

lemma inv_frame:
  assumes I: "registry_inv s" and i: "i < length (threads s)"
    and old: "\<And>u. \<not> drains u (threads s ! i)"
    and new: "\<And>u. \<not> drains u th" "\<And>u x. x \<in> set extra \<Longrightarrow> \<not> drains u x"
    and q: "quiet ls"
  shows "registry_inv (s\<lparr> threads := (threads s)[i := th] @ extra, trace := trace s @ ls \<rparr>)"
proof -
  define s' where "s' = s\<lparr> threads := (threads s)[i := th] @ extra, trace := trace s @ ls \<rparr>"
  have f: "threads s' = (threads s)[i := th] @ extra" "trace s' = trace s @ ls"
    "userQueues s' = userQueues s" "userLocks s' = userLocks s" "arrays s' = arrays s"
    by (simp_all add: s'_def)
  note qs = quiet_pushes[OF q] quiet_ends[OF q] quiet_all_pushed[OF q]
  have same: "j < length (threads s) \<and> threads s' ! j = threads s ! j"
    if "j < length (threads s')" "drains u (threads s' ! j)" for j u
  proof (cases "j < length (threads s)")
    case True
    then show ?thesis using that new(1) by (cases "j = i") (auto simp: f nth_append)
  next
    case False
    then have "threads s' ! j \<in> set extra" using that(1) by (simp add: f nth_append)
    then show ?thesis using new(2) that(2) by blast
  qed
  have keep: "drains u (threads s' ! j)" if "j < length (threads s)" "drains u (threads s ! j)" for j u
    using that old by (cases "j = i") (auto simp: f nth_append)
  have "registry_inv s'"
  proof (rule invI)
    fix j u a t pc
    assume j: "j < length (threads s')" and d: "threads s' ! j = Drain u a t pc"
    from same[OF j] d have "j < length (threads s)" "threads s ! j = Drain u a t pc" by simp_all
    from invD_drain[OF I this]
    show "userQueues s' u = Some a \<and> userLocks s' u = Some True \<and> a < length (arrays s') \<and>
        pushes u (trace s') = ends u (trace s') @ t # arrays s' ! a"
      by (simp add: f qs)
  next
    fix j k u
    assume a: "j < length (threads s')" "k < length (threads s')"
      "drains u (threads s' ! j)" "drains u (threads s' ! k)"
    from same[OF a(1,3)] same[OF a(2,4)] a(3,4) invD_unique[OF I, of j k u] show "j = k" by simp
  next
    fix u
    assume a: "\<forall>j<length (threads s'). \<not> drains u (threads s' ! j)"
    have n: "\<not> drains u (threads s ! j)" if "j < length (threads s)" for j
    proof
      assume "drains u (threads s ! j)"
      from keep[OF that this] a that show False by (simp add: f)
    qed
    from invD_idle[OF I n] show "userQueues s' u = None \<and> userLocks s' u = None \<and>
        pushes u (trace s') = ends u (trace s')"
      by (simp add: f qs)
  next
    fix u u' a
    assume "userQueues s' u = Some a" "userQueues s' u' = Some a"
    then show "u = u'" using invD_inj[OF I] by (simp add: f)
  next
    fix t
    assume "t \<in> set (all_pushed (trace s'))"
    then show "task_act t < length (threads s')" using invD_fresh[OF I, of t] by (auto simp: f qs)
  next
    show "distinct (all_pushed (trace s'))" using invD_distinct[OF I] by (simp add: f qs)
  qed
  then show ?thesis by (simp add: s'_def)
qed

text \<open>A drain moves inside processUserMessage.\<close>

lemma inv_drain_pc:
  assumes I: "registry_inv s" and i: "i < length (threads s)"
    and th: "threads s ! i = Drain u a t pc" and q: "quiet ls"
  shows "registry_inv (s\<lparr> threads := (threads s)[i := Drain u a t pc'], trace := trace s @ ls \<rparr>)"
proof -
  define s' where "s' = s\<lparr> threads := (threads s)[i := Drain u a t pc'], trace := trace s @ ls \<rparr>"
  have f: "threads s' = (threads s)[i := Drain u a t pc']" "trace s' = trace s @ ls"
    "userQueues s' = userQueues s" "userLocks s' = userLocks s" "arrays s' = arrays s"
    by (simp_all add: s'_def)
  note qs = quiet_pushes[OF q] quiet_ends[OF q] quiet_all_pushed[OF q]
  have dr: "drains v (threads s' ! j) \<longleftrightarrow> drains v (threads s ! j)" if "j < length (threads s)" for j v
    using that th by (cases "j = i") (auto simp: f)
  have "registry_inv s'"
  proof (rule invI)
    fix j v b t' pc''
    assume j: "j < length (threads s')" and d: "threads s' ! j = Drain v b t' pc''"
    show "userQueues s' v = Some b \<and> userLocks s' v = Some True \<and> b < length (arrays s') \<and>
        pushes v (trace s') = ends v (trace s') @ t' # arrays s' ! b"
    proof (cases "j = i")
      case True
      then have "v = u" "b = a" "t' = t" using d i by (simp_all add: f)
      then show ?thesis using invD_drain[OF I i th] by (simp add: f qs)
    next
      case False
      then have "threads s ! j = Drain v b t' pc''" using d by (simp add: f)
      moreover have "j < length (threads s)" using j by (simp add: f)
      ultimately show ?thesis using invD_drain[OF I] by (simp add: f qs)
    qed
  next
    fix j k v
    assume "j < length (threads s')" "k < length (threads s')"
      "drains v (threads s' ! j)" "drains v (threads s' ! k)"
    then show "j = k" using invD_unique[OF I, of j k v] dr by (simp add: f)
  next
    fix v
    assume "\<forall>j<length (threads s'). \<not> drains v (threads s' ! j)"
    then have "\<And>j. j < length (threads s) \<Longrightarrow> \<not> drains v (threads s ! j)"
      using dr by (simp add: f)
    from invD_idle[OF I this] show "userQueues s' v = None \<and> userLocks s' v = None \<and>
        pushes v (trace s') = ends v (trace s')"
      by (simp add: f qs)
  next
    fix v v' b
    assume "userQueues s' v = Some b" "userQueues s' v' = Some b"
    then show "v = v'" using invD_inj[OF I] by (simp add: f)
  next
    fix t'
    assume "t' \<in> set (all_pushed (trace s'))"
    then show "task_act t' < length (threads s')" using invD_fresh[OF I] by (simp add: f qs)
  next
    show "distinct (all_pushed (trace s'))" using invD_distinct[OF I] by (simp add: f qs)
  qed
  then show ?thesis by (simp add: s'_def)
qed


lemma inv_queue_drained:
  assumes I: "registry_inv s" and q: "userQueues s u = Some a"
  shows "\<exists>i t pc. i < length (threads s) \<and> threads s ! i = Drain u a t pc"
proof (rule ccontr)
  assume n: "\<not> ?thesis"
  have "\<not> drains u (threads s ! i)" if "i < length (threads s)" for i
  proof
    assume "drains u (threads s ! i)"
    then obtain b t pc where d: "threads s ! i = Drain u b t pc" by (auto dest: drains_Drain)
    with invD_drain[OF I that d] q have "b = a" by simp
    with d that n show False by blast
  qed
  from invD_idle[OF I this] q show False by simp
qed

lemma inv_queue_bound: "registry_inv s \<Longrightarrow> userQueues s u = Some a \<Longrightarrow> a < length (arrays s)"
  using inv_queue_drained invD_drain by blast

lemma inv_task_user:
  assumes "registry_inv s" "i < length (threads s)" "threads s ! i = Drain u a t pc"
  shows "task_user t = u"
proof -
  have "t \<in> set (pushes u (trace s))" using invD_drain[OF assms] by simp
  then show ?thesis by (simp add: pushes_def)
qed

lemma inv_welcome_absent:
  assumes I: "registry_inv s" and idle: "\<And>i. i < length (threads s) \<Longrightarrow> \<not> drains (ctx_from c) (threads s ! i)"
  shows "registry_inv (welcomeFlow c s)"
proof -
  define u where "u = ctx_from c"
  define t where "t = \<lparr> task_ctx = c, task_act = length (threads s) \<rparr>"
  define n where "n = length (arrays s)"
  define s' where "s' = welcomeFlow c s"
  have abs: "userQueues s u = None" "userLocks s u = None" "pushes u (trace s) = ends u (trace s)"
    using invD_idle[OF I idle] by (simp_all add: u_def)
  have f: "threads s' = threads s @ [Drain u n t (InProcess AwaitTyping)]"
    "trace s' = trace s @ [Push t, Begin t, Typing t]"
    "userQueues s' = (userQueues s)(u \<mapsto> n)" "userLocks s' = (userLocks s)(u \<mapsto> True)"
    "arrays s' = arrays s @ [[]]"
    using abs(1,2) by (simp_all add: s'_def welcomeFlow_absent u_def t_def n_def)
  have tu: "task_user t = u" by (simp add: task_user_def t_def u_def)
  have old: "j < length (threads s) \<and> threads s' ! j = threads s ! j \<and> v \<noteq> u"
    if "j < length (threads s')" "drains v (threads s' ! j)" "j \<noteq> length (threads s)" for j v
    using that idle by (auto simp: f nth_append u_def)
  have "registry_inv s'"
  proof (rule invI)
    fix j v b t' pc
    assume j: "j < length (threads s')" and d: "threads s' ! j = Drain v b t' pc"
    show "userQueues s' v = Some b \<and> userLocks s' v = Some True \<and> b < length (arrays s') \<and>
        pushes v (trace s') = ends v (trace s') @ t' # arrays s' ! b"
    proof (cases "j = length (threads s)")
      case True
      then have "v = u" "b = n" "t' = t" using d by (simp_all add: f)
      then show ?thesis using abs tu by (simp add: f n_def)
    next
      case False
      from old[OF j _ False] d have o: "j < length (threads s)" "threads s ! j = Drain v b t' pc" "v \<noteq> u"
        by simp_all
      from invD_drain[OF I o(1,2)] o(3) tu show ?thesis by (simp add: f nth_append)
    qed
  next
    fix j k v
    assume a: "j < length (threads s')" "k < length (threads s')"
      "drains v (threads s' ! j)" "drains v (threads s' ! k)"
    show "j = k"
    proof (cases "j = length (threads s)")
      case True
      then have "v = u" using a(3) by (simp add: f)
      then show ?thesis using old[OF a(2,4)] True by blast
    next
      case False
      note oj = old[OF a(1,3) False]
      then have "k \<noteq> length (threads s)" using a(4) by (auto simp: f)
      from old[OF a(2,4) this] oj a(3,4) invD_unique[OF I, of j k v] show ?thesis by simp
    qed
  next
    fix v
    assume a: "\<forall>j<length (threads s'). \<not> drains v (threads s' ! j)"
    then have vu: "v \<noteq> u" by (auto simp: f)
    have "\<not> drains v (threads s ! j)" if "j < length (threads s)" for j
      using a that by (auto simp: f nth_append dest!: spec[of _ j])
    from invD_idle[OF I this] vu tu show "userQueues s' v = None \<and> userLocks s' v = None \<and>
        pushes v (trace s') = ends v (trace s')"
      by (simp add: f)
  next
    fix v v' b
    assume a: "userQueues s' v = Some b" "userQueues s' v' = Some b"
    have "b \<noteq> n" if "userQueues s w = Some b" for w
      using inv_queue_bound[OF I that] by (simp add: n_def)
    then show "v = v'" using a invD_inj[OF I, of v b v'] by (auto simp: f split: if_splits)
  next
    fix t'
    assume "t' \<in> set (all_pushed (trace s'))"
    then show "task_act t' < length (threads s')"
      using invD_fresh[OF I, of t'] by (auto simp: f t_def)
  next
    have "t \<notin> set (all_pushed (trace s))" using invD_fresh[OF I, of t] by (auto simp: t_def)
    then show "distinct (all_pushed (trace s'))" using invD_distinct[OF I] by (simp add: f)
  qed
  then show ?thesis by (simp add: s'_def)
qed

lemma inv_welcome_draining:
  assumes I: "registry_inv s" and i: "i < length (threads s)" and d0: "drains (ctx_from c) (threads s ! i)"
  shows "registry_inv (welcomeFlow c s)"
proof -
  define u where "u = ctx_from c"
  define t where "t = \<lparr> task_ctx = c, task_act = length (threads s) \<rparr>"
  define s' where "s' = welcomeFlow c s"
  obtain a t0 pc0 where th: "threads s ! i = Drain u a t0 pc0"
    using d0 by (auto simp: u_def dest: drains_Drain)
  note D = invD_drain[OF I i th]
  have f: "threads s' = threads s @ [Finished]"
    "trace s' = trace s @ [Push t]"
    "userQueues s' = userQueues s" "userLocks s' = userLocks s"
    "arrays s' = (arrays s)[a := arrays s ! a @ [t]]"
    using D by (simp_all add: s'_def welcomeFlow_draining[of s c a] u_def t_def)
  have tu: "task_user t = u" by (simp add: task_user_def t_def u_def)
  have old: "j < length (threads s) \<and> threads s' ! j = threads s ! j"
    if "j < length (threads s')" "drains v (threads s' ! j)" for j v
    using that by (cases "j = length (threads s)") (auto simp: f nth_append)
  have "registry_inv s'"
  proof (rule invI)
    fix j v b t' pc
    assume j: "j < length (threads s')" and d: "threads s' ! j = Drain v b t' pc"
    from old[OF j] d have o: "j < length (threads s)" "threads s ! j = Drain v b t' pc" by simp_all
    note Dj = invD_drain[OF I o]
    show "userQueues s' v = Some b \<and> userLocks s' v = Some True \<and> b < length (arrays s') \<and>
        pushes v (trace s') = ends v (trace s') @ t' # arrays s' ! b"
    proof (cases "v = u")
      case True
      then have "b = a" using Dj D by simp
      then show ?thesis using Dj True tu by (simp add: f)
    next
      case False
      then have "b \<noteq> a" using invD_inj[OF I, of v b u] Dj D by auto
      then show ?thesis using Dj False tu by (simp add: f)
    qed
  next
    fix j k v
    assume a: "j < length (threads s')" "k < length (threads s')"
      "drains v (threads s' ! j)" "drains v (threads s' ! k)"
    from old[OF a(1,3)] old[OF a(2,4)] a(3,4) invD_unique[OF I, of j k v] show "j = k" by simp
  next
    fix v
    assume a: "\<forall>j<length (threads s'). \<not> drains v (threads s' ! j)"
    have n: "\<not> drains v (threads s ! j)" if "j < length (threads s)" for j
      using a that by (auto simp: f nth_append dest!: spec[of _ j])
    have "v \<noteq> u" using n[OF i] th by auto
    with invD_idle[OF I n] tu show "userQueues s' v = None \<and> userLocks s' v = None \<and>
        pushes v (trace s') = ends v (trace s')"
      by (simp add: f)
  next
    fix v v' b
    assume "userQueues s' v = Some b" "userQueues s' v' = Some b"
    then show "v = v'" using invD_inj[OF I] by (simp add: f)
  next
    fix t'
    assume "t' \<in> set (all_pushed (trace s'))"
    then show "task_act t' < length (threads s')"
      using invD_fresh[OF I, of t'] by (auto simp: f t_def)
  next
    have "t \<notin> set (all_pushed (trace s))" using invD_fresh[OF I, of t] by (auto simp: t_def)
    then show "distinct (all_pushed (trace s'))" using invD_distinct[OF I] by (simp add: f)
  qed
  then show ?thesis by (simp add: s'_def)
qed

lemma inv_welcome: "registry_inv s \<Longrightarrow> registry_inv (welcomeFlow c s)"
  using inv_welcome_absent inv_welcome_draining by blast


lemma inv_settled:
  assumes I: "registry_inv s" and i: "i < length (threads s)"
    and th: "threads s ! i = Drain u a t (Settled ok)"
  shows "registry_inv (resume i (Drain u a t (Settled ok)) out s)"
proof -
  define s' where "s' = resume i (Drain u a t (Settled ok)) out s"
  define err where "err = (if ok then [] else [LogError u])"
  note D = invD_drain[OF I i th]
  have tu: "task_user t = u" using inv_task_user[OF I i th] .
  have qerr: "quiet err" by (simp add: err_def quiet_def)
  note qs = quiet_pushes[OF qerr] quiet_ends[OF qerr] quiet_all_pushed[OF qerr]
  have other: "j < length (threads s) \<and> threads s ! j = threads s' ! j \<and> v \<noteq> u"
    if "j < length (threads s')" "drains v (threads s' ! j)" "j \<noteq> i"
      "threads s' = (threads s)[i := x]" for j v x
  proof -
    have j: "j < length (threads s)" "threads s ! j = threads s' ! j" using that by simp_all
    moreover have "v \<noteq> u"
    proof
      assume "v = u"
      then have "drains u (threads s ! j)" using that(2) j(2) by simp
      with invD_unique[OF I j(1) i, of u] th that(3) show False by simp
    qed
    ultimately show ?thesis by simp
  qed
  have "registry_inv s'"
  proof (cases "arrays s ! a")
    case Nil
    have f: "threads s' = (threads s)[i := Finished]"
      "trace s' = trace s @ err @ [End t]"
      "userQueues s' = (userQueues s)(u := None)" "userLocks s' = (userLocks s)(u := None)"
      "arrays s' = arrays s"
      using D Nil by (simp_all add: s'_def hq_settled_empty err_def)
    show ?thesis
    proof (rule invI)
      fix j v b t' pc
      assume j: "j < length (threads s')" and d: "threads s' ! j = Drain v b t' pc"
      have "j \<noteq> i" using d i by (auto simp: f)
      from other[OF j _ this f(1)] d
      have o: "j < length (threads s)" "threads s ! j = Drain v b t' pc" "v \<noteq> u" by simp_all
      from invD_drain[OF I o(1,2)] o(3) tu
      show "userQueues s' v = Some b \<and> userLocks s' v = Some True \<and> b < length (arrays s') \<and>
          pushes v (trace s') = ends v (trace s') @ t' # arrays s' ! b"
        by (simp add: f qs)
    next
      fix j k v
      assume a: "j < length (threads s')" "k < length (threads s')"
        "drains v (threads s' ! j)" "drains v (threads s' ! k)"
      have "j \<noteq> i" "k \<noteq> i" using a(3,4) i by (auto simp: f)
      from other[OF a(1,3) this(1) f(1)] other[OF a(2,4) this(2) f(1)] a(3,4)
        invD_unique[OF I, of j k v]
      show "j = k" by simp
    next
      fix v
      assume a: "\<forall>j<length (threads s'). \<not> drains v (threads s' ! j)"
      show "userQueues s' v = None \<and> userLocks s' v = None \<and>
          pushes v (trace s') = ends v (trace s')"
      proof (cases "v = u")
        case True
        then show ?thesis using D Nil tu by (simp add: f qs)
      next
        case False
        have "\<not> drains v (threads s ! j)" if "j < length (threads s)" for j
          using a that th False by (cases "j = i") (auto simp: f dest!: spec[of _ j])
        from invD_idle[OF I this] False tu show ?thesis by (simp add: f qs)
      qed
    next
      fix v v' b
      assume "userQueues s' v = Some b" "userQueues s' v' = Some b"
      then show "v = v'" using invD_inj[OF I, of v b v'] by (auto simp: f split: if_splits)
    next
      fix t'
      assume "t' \<in> set (all_pushed (trace s'))"
      then show "task_act t' < length (threads s')" using invD_fresh[OF I, of t'] by (simp add: f qs)
    next
      show "distinct (all_pushed (trace s'))" using invD_distinct[OF I] by (simp add: f qs)
    qed
  next
    case (Cons t2 rest)
    have f: "threads s' = (threads s)[i := Drain u a t2 (InProcess AwaitTyping)]"
      "trace s' = trace s @ err @ [End t, Begin t2, Typing t2]"
      "userQueues s' = userQueues s" "userLocks s' = (userLocks s)(u \<mapsto> True)"
      "arrays s' = (arrays s)[a := rest]"
      using D Cons by (simp_all add: s'_def hq_settled_next err_def)
    show ?thesis
    proof (rule invI)
      fix j v b t' pc
      assume j: "j < length (threads s')" and d: "threads s' ! j = Drain v b t' pc"
      show "userQueues s' v = Some b \<and> userLocks s' v = Some True \<and> b < length (arrays s') \<and>
          pushes v (trace s') = ends v (trace s') @ t' # arrays s' ! b"
      proof (cases "j = i")
        case True
        then have "v = u" "b = a" "t' = t2" using d i by (simp_all add: f)
        then show ?thesis using D Cons tu by (simp add: f qs)
      next
        case False
        from other[OF j _ False f(1)] d
        have o: "j < length (threads s)" "threads s ! j = Drain v b t' pc" "v \<noteq> u" by simp_all
        note Dj = invD_drain[OF I o(1,2)]
        have "b \<noteq> a" using invD_inj[OF I, of v b u] Dj D o(3) by auto
        then show ?thesis using Dj o(3) tu by (simp add: f qs)
      qed
    next
      fix j k v
      assume a: "j < length (threads s')" "k < length (threads s')"
        "drains v (threads s' ! j)" "drains v (threads s' ! k)"
      have dr: "drains w (threads s' ! m) \<longleftrightarrow> drains w (threads s ! m)" if "m < length (threads s)" for m w
        using that th by (cases "m = i") (auto simp: f)
      from a show "j = k" using invD_unique[OF I, of j k v] dr by (simp add: f)
    next
      fix v
      assume a: "\<forall>j<length (threads s'). \<not> drains v (threads s' ! j)"
      have dr: "drains w (threads s' ! m) \<longleftrightarrow> drains w (threads s ! m)" if "m < length (threads s)" for m w
        using that th by (cases "m = i") (auto simp: f)
      have n: "\<not> drains v (threads s ! j)" if "j < length (threads s)" for j
        using a that dr by (simp add: f)
      have "v \<noteq> u" using n[OF i] th by auto
      with invD_idle[OF I n] tu show "userQueues s' v = None \<and> userLocks s' v = None \<and>
          pushes v (trace s') = ends v (trace s')"
        by (simp add: f qs)
    next
      fix v v' b
      assume "userQueues s' v = Some b" "userQueues s' v' = Some b"
      then show "v = v'" using invD_inj[OF I, of v b v'] by (simp add: f)
    next
      fix t'
      assume "t' \<in> set (all_pushed (trace s'))"
      then show "task_act t' < length (threads s')" using invD_fresh[OF I, of t'] by (simp add: f qs)
    next
      show "distinct (all_pushed (trace s'))" using invD_distinct[OF I] by (simp add: f qs)
    qed
  qed
  then show ?thesis by (simp add: s'_def)
qed

lemma quiet_processUserMessage: "processUserMessage t pc out = (ls, nx) \<Longrightarrow> quiet ls"
  by (induction t pc out rule: processUserMessage.induct) (auto simp: quiet_def split: list.splits)

lemma voice_send_quiet:
  "voice_send v c p response bs = (ls, th, unl) \<Longrightarrow> quiet ls \<and> (\<forall>u. \<not> drains u th)"
  by (cases bs) (auto simp: quiet_def)

lemma voiceNoteFlow_quiet:
  "voiceNoteFlow sf v c pc out = (ls, th, unl) \<Longrightarrow> quiet ls \<and> (\<forall>u. \<not> drains u th)"
  by (induction sf v c pc out rule: voiceNoteFlow.induct)
     (auto simp: quiet_def voice_catch_def dest: voice_send_quiet split: if_splits)

lemma inv_resume:
  assumes I: "registry_inv s" and i: "i < length (threads s)"
  shows "registry_inv (resume i (threads s ! i) out s)"
proof (cases "threads s ! i")
  case (Drain u a t dpc)
  show ?thesis
  proof (cases dpc)
    case (InProcess pc)
    obtain ls nx where p: "processUserMessage t pc out = (ls, nx)" by (cases "processUserMessage t pc out")
    from inv_drain_pc[OF I i _ quiet_processUserMessage[OF p]] Drain InProcess p
    show ?thesis by simp
  next
    case (Settled ok)
    with inv_settled[OF I i] Drain show ?thesis by simp
  qed
next
  case (Voice c pc)
  obtain ls th unl where v: "voiceNoteFlow (speechFile s) i c pc out = (ls, th, unl)"
    by (cases "voiceNoteFlow (speechFile s) i c pc out")
  from voiceNoteFlow_quiet[OF v] have q: "quiet ls" "\<And>u. \<not> drains u th" by simp_all
  have "registry_inv (s\<lparr> threads := (threads s)[i := th] @ (case unl of None \<Rightarrow> [] | Some p \<Rightarrow> [Unlinking p]),
     trace := trace s @ ls \<rparr>)"
    using I i Voice q by (intro inv_frame) (auto split: option.splits)
  then show ?thesis using Voice v by simp
next
  case (Unlinking p)
  have "registry_inv (s\<lparr> threads := (threads s)[i := Finished] @ [],
     trace := trace s @ [case out of Resolve v \<Rightarrow> LogDeleted p | Reject \<Rightarrow> LogDeleteError p] \<rparr>)"
    using I i Unlinking by (intro inv_frame) (auto simp: quiet_def split: outcome.splits)
  then show ?thesis using Unlinking by simp
next
  case Finished
  then show ?thesis using I by simp
next
  case Crashed
  then show ?thesis using I by simp
qed

lemma inv_voice_note:
  assumes I: "registry_inv s"
  shows "registry_inv (step (VoiceNote c) s)"
proof -
  define s' where "s' = step (VoiceNote c) s"
  have f: "threads s' = threads s @ [Voice c AtSaveFile]"
    "trace s' = trace s @ [SaveFile (length (threads s))]"
    "userQueues s' = userQueues s" "userLocks s' = userLocks s" "arrays s' = arrays s"
    by (simp_all add: s'_def)
  have old: "j < length (threads s) \<and> threads s' ! j = threads s ! j"
    if "j < length (threads s')" "drains v (threads s' ! j)" for j v
    using that by (cases "j = length (threads s)") (auto simp: f nth_append)
  have "registry_inv s'"
  proof (rule invI)
    fix j v b t' pc
    assume j: "j < length (threads s')" and d: "threads s' ! j = Drain v b t' pc"
    from old[OF j] d have "j < length (threads s)" "threads s ! j = Drain v b t' pc" by simp_all
    from invD_drain[OF I this]
    show "userQueues s' v = Some b \<and> userLocks s' v = Some True \<and> b < length (arrays s') \<and>
        pushes v (trace s') = ends v (trace s') @ t' # arrays s' ! b"
      by (simp add: f)
  next
    fix j k v
    assume a: "j < length (threads s')" "k < length (threads s')"
      "drains v (threads s' ! j)" "drains v (threads s' ! k)"
    from old[OF a(1,3)] old[OF a(2,4)] a(3,4) invD_unique[OF I, of j k v] show "j = k" by simp
  next
    fix v
    assume a: "\<forall>j<length (threads s'). \<not> drains v (threads s' ! j)"
    have n: "\<not> drains v (threads s ! j)" if "j < length (threads s)" for j
      using a that by (auto simp: f nth_append dest!: spec[of _ j])
    from invD_idle[OF I n] show "userQueues s' v = None \<and> userLocks s' v = None \<and>
        pushes v (trace s') = ends v (trace s')"
      by (simp add: f)
  next
    fix v v' b
    assume "userQueues s' v = Some b" "userQueues s' v' = Some b"
    then show "v = v'" using invD_inj[OF I] by (simp add: f)
  next
    fix t'
    assume "t' \<in> set (all_pushed (trace s'))"
    then show "task_act t' < length (threads s')"
      using invD_fresh[OF I, of t'] by (auto simp: f)
  next
    show "distinct (all_pushed (trace s'))" using invD_distinct[OF I] by (simp add: f)
  qed
  then show ?thesis by (simp add: s'_def)
qed

lemma inv_step: "registry_inv s \<Longrightarrow> registry_inv (step e s)"
  by (cases e) (simp_all add: inv_welcome inv_voice_note inv_resume del: step.simps(2))

lemma run_snoc: "run (es @ [e]) s = step e (run es s)"
  by (simp add: run_def)

lemma inv_run: "registry_inv (run es (init cwd))"
  by (induction es rule: rev_induct) (simp_all add: run_snoc inv_step inv_init run_def)


section \<open>The order of the trace\<close>

lemma in_pushes: "t \<in> set (pushes u tr) \<Longrightarrow> Push t \<in> set tr \<and> task_user t = u"
proof (induction tr)
  case Nil
  then show ?case by simp
next
  case (Cons l ls)
  then show ?case by (cases l) (auto split: if_splits)
qed

lemma pushes_member: "Push t \<in> set tr \<Longrightarrow> t \<in> set (pushes (task_user t) tr)"
  by (induction tr) auto

lemma in_ends: "t \<in> set (ends u tr) \<Longrightarrow> End t \<in> set tr"
proof (induction tr)
  case Nil
  then show ?case by simp
next
  case (Cons l ls)
  then show ?case by (cases l) (auto split: if_splits)
qed

lemma pushes_order:
  assumes "i < j" "j < length tr" "tr ! i = Push a" "tr ! j = Push b"
    "task_user a = u" "task_user b = u"
  shows "\<exists>xs ys zs. pushes u tr = xs @ a # ys @ b # zs"
proof -
  have i: "i < length tr" using assms by simp
  have 1: "tr = take i tr @ Push a # drop (Suc i) tr"
    using id_take_nth_drop[OF i] assms(3) by simp
  let ?d = "drop (Suc i) tr"
  have j': "j - Suc i < length ?d" using assms by simp
  have "?d ! (j - Suc i) = Push b" using assms by simp
  then have 2: "?d = take (j - Suc i) ?d @ Push b # drop (Suc (j - Suc i)) ?d"
    using id_take_nth_drop[OF j'] by simp
  have "pushes u tr = pushes u (take i tr) @ a # pushes u (take (j - Suc i) ?d) @ b #
      pushes u (drop (Suc (j - Suc i)) ?d)"
    by (subst 1, subst 2) (simp add: assms(5,6))
  then show ?thesis by blast
qed

lemma distinct_split_unique:
  assumes "distinct l" "l = p @ b # q" "l = p' @ b # q'"
  shows "p = p'"
proof -
  have "distinct (p @ b # q)" using assms(1,2) by simp
  moreover have "distinct (p' @ b # q')" using assms(1,3) by simp
  ultimately have "b \<notin> set p" "b \<notin> set p'" by simp_all
  then have "takeWhile (\<lambda>x. x \<noteq> b) (p @ b # q) = p" "takeWhile (\<lambda>x. x \<noteq> b) (p' @ b # q') = p'"
    by (auto simp: takeWhile_tail)
  then show ?thesis using assms(2,3) by simp
qed

lemma distinct_pushes: "distinct (all_pushed tr) \<Longrightarrow> distinct (pushes u tr)"
  by (simp add: pushes_def all_pushed_def)

lemma earlier_push:
  assumes d: "distinct (all_pushed tr)" and p: "pushes u tr = E @ t # b # rest"
    and o: "i < j" "j < length tr" "tr ! i = Push a" "tr ! j = Push b"
    "task_user a = u" "task_user b = u"
  shows "a \<in> set E \<or> a = t"
proof -
  from pushes_order[OF o] obtain xs ys zs where x: "pushes u tr = xs @ a # ys @ b # zs" by blast
  have "pushes u tr = (xs @ a # ys) @ b # zs" "pushes u tr = (E @ [t]) @ b # rest"
    using x p by simp_all
  from distinct_split_unique[OF distinct_pushes[OF d] this] have "xs @ a # ys = E @ [t]" .
  then have "a \<in> set (E @ [t])" by (metis in_set_conv_decomp)
  then show ?thesis by auto
qed

lemma step_trace_cases:
  assumes I: "registry_inv s"
  shows "(\<exists>new. trace (step e s) = trace s @ new \<and> no_begin new) \<or>
     (\<exists>t. trace (step e s) = trace s @ [Push t, Begin t, Typing t] \<and>
        pushes (task_user t) (trace s) = ends (task_user t) (trace s)) \<or>
     (\<exists>u t t' rest err. trace (step e s) = trace s @ err @ [End t, Begin t', Typing t'] \<and>
        (err = [] \<or> err = [LogError u]) \<and> task_user t' = u \<and>
        pushes u (trace s) = ends u (trace s) @ t # t' # rest)"
proof (cases e)
  case (Welcome c)
  show ?thesis
  proof (cases "\<exists>i<length (threads s). drains (ctx_from c) (threads s ! i)")
    case True
    then obtain i a t pc where i: "i < length (threads s)" "threads s ! i = Drain (ctx_from c) a t pc"
      by (auto dest: drains_Drain)
    from invD_drain[OF I this] have "trace (step e s) = trace s @ [Push \<lparr> task_ctx = c, task_act = length (threads s) \<rparr>]"
      using Welcome by (simp add: welcomeFlow_draining[of s c a])
    then show ?thesis by (simp add: no_begin_def)
  next
    case False
    then have idle: "\<And>i. i < length (threads s) \<Longrightarrow> \<not> drains (ctx_from c) (threads s ! i)" by blast
    note A = invD_idle[OF I idle]
    let ?t = "\<lparr> task_ctx = c, task_act = length (threads s) \<rparr>"
    have "trace (step e s) = trace s @ [Push ?t, Begin ?t, Typing ?t]"
      using Welcome A by (simp add: welcomeFlow_absent)
    moreover have "task_user ?t = ctx_from c" by (simp add: task_user_def)
    ultimately show ?thesis using A by auto
  qed
next
  case (VoiceNote c)
  then show ?thesis by (simp add: no_begin_def)
next
  case (Settle i out)
  show ?thesis
  proof (cases "i < length (threads s)")
    case False
    then show ?thesis using Settle by (simp add: no_begin_def)
  next
    case i: True
    show ?thesis
    proof (cases "threads s ! i")
      case (Drain u a t dpc)
      show ?thesis
      proof (cases dpc)
        case (InProcess pc)
        obtain ls nx where p: "processUserMessage t pc out = (ls, nx)"
          by (cases "processUserMessage t pc out")
        have "no_begin ls" using p
          by (induction t pc out rule: processUserMessage.induct)
             (auto simp: no_begin_def split: list.splits)
        then show ?thesis using Settle i Drain InProcess p by simp
      next
        case (Settled ok)
        note D = invD_drain[OF I i Drain]
        show ?thesis
        proof (cases "arrays s ! a")
          case Nil
          then have "trace (step e s) = trace s @ (if ok then [] else [LogError u]) @ [End t]"
            using Settle i Drain Settled D by (simp add: hq_settled_empty)
          moreover have "no_begin ((if ok then [] else [LogError u]) @ [End t])"
            by (simp add: no_begin_def)
          ultimately show ?thesis by blast
        next
          case (Cons t' rest)
          then have tr: "trace (step e s) = trace s @ (if ok then [] else [LogError u]) @ [End t, Begin t', Typing t']"
            using Settle i Drain Settled D by (simp add: hq_settled_next)
          have p: "pushes u (trace s) = ends u (trace s) @ t # t' # rest" using D Cons by simp
          then have "t' \<in> set (pushes u (trace s))" by simp
          then have "task_user t' = u" by (simp add: pushes_def)
          with tr p show ?thesis by (intro disjI2) (rule exI[of _ u], auto)
        qed
      qed
    next
      case (Voice c pc)
      obtain ls th unl where v: "voiceNoteFlow (speechFile s) i c pc out = (ls, th, unl)"
        by (cases "voiceNoteFlow (speechFile s) i c pc out")
      have "no_begin ls" using v
        by (induction "speechFile s" i c pc out rule: voiceNoteFlow.induct)
           (auto simp: no_begin_def voice_catch_def split: if_splits elim!: voice_send.elims)
      then show ?thesis using Settle i Voice v by simp
    next
      case (Unlinking p)
      then show ?thesis using Settle i by (simp add: no_begin_def split: outcome.splits)
    next
      case Finished
      then show ?thesis using Settle i by (simp add: no_begin_def)
    next
      case Crashed
      then show ?thesis using Settle i by (simp add: no_begin_def)
    qed
  qed
qed


lemma nth3_Begin:
  "d < 3 \<Longrightarrow> [Push t, Begin t', Typing t''] ! d = Begin b \<Longrightarrow> d = 1 \<and> b = t'"
  by (auto simp: less_Suc_eq numeral_3_eq_3)

lemma nth_err_Begin:
  "err = [] \<or> err = [LogError v] \<Longrightarrow> d < length err + 3 \<Longrightarrow>
   (err @ [End t, Begin t', Typing t'']) ! d = Begin b \<Longrightarrow> d = length err + 1 \<and> b = t'"
  by (auto simp: less_Suc_eq numeral_3_eq_3)

lemma nth_err_Push:
  "err = [] \<or> err = [LogError v] \<Longrightarrow> d < length err + 3 \<Longrightarrow>
   (err @ [End t, Begin t', Typing t'']) ! d \<noteq> Push b"
  by (auto simp: less_Suc_eq numeral_3_eq_3)

lemma lift_old:
  assumes "tr' = tr @ new" "k \<le> length tr" "\<exists>m<k. tr ! m = x"
  shows "\<exists>m<k. tr' ! m = x"
proof -
  from assms(3) obtain m where m: "m < k" "tr ! m = x" by blast
  then have "tr' ! m = x" using assms(1,2) by (simp add: nth_append)
  with m(1) show ?thesis by blast
qed

lemma nth_End_of_set: "End a \<in> set tr \<Longrightarrow> \<exists>m<length tr. tr ! m = End a"
  by (auto simp: in_set_conv_nth)

lemma fifo_step:
  assumes I: "registry_inv s"
    and IH: "\<And>i j k a b. i < j \<Longrightarrow> j < k \<Longrightarrow> k < length (trace s) \<Longrightarrow>
       trace s ! i = Push a \<Longrightarrow> trace s ! j = Push b \<Longrightarrow> trace s ! k = Begin b \<Longrightarrow>
       task_user a = task_user b \<Longrightarrow> \<exists>m<k. trace s ! m = End a"
    and o: "i < j" "j < k" "k < length (trace (step e s))"
    and l: "trace (step e s) ! i = Push a" "trace (step e s) ! j = Push b"
       "trace (step e s) ! k = Begin b"
    and u: "task_user a = task_user b"
  shows "\<exists>m<k. trace (step e s) ! m = End a"
proof -
  let ?tr = "trace s"
  let ?n = "length ?tr"
  from step_trace_cases[OF I, of e]
  consider (quiet) new where "trace (step e s) = ?tr @ new" "no_begin new"
    | (fresh) t where "trace (step e s) = ?tr @ [Push t, Begin t, Typing t]"
        "pushes (task_user t) ?tr = ends (task_user t) ?tr"
    | (more) v t t' rest err where "trace (step e s) = ?tr @ err @ [End t, Begin t', Typing t']"
        "err = [] \<or> err = [LogError v]" "task_user t' = v"
        "pushes v ?tr = ends v ?tr @ t # t' # rest"
    by blast
  then show ?thesis
  proof cases
    case quiet
    have k: "k < ?n"
    proof (rule ccontr)
      assume "\<not> k < ?n"
      then have "new ! (k - ?n) = Begin b" "k - ?n < length new"
        using l(3) o(3) quiet(1) by (simp_all add: nth_append)
      then have "Begin b \<in> set new" by (metis nth_mem)
      with quiet(2) show False by (auto simp: no_begin_def)
    qed
    with o l quiet(1) have ex: "\<exists>m<k. ?tr ! m = End a"
      by (intro IH[of i j k a b] u) (simp_all add: nth_append)
    have le: "k \<le> ?n" using k by simp
    from lift_old[OF quiet(1) le ex] show ?thesis .
  next
    case fresh
    show ?thesis
    proof (cases "k < ?n")
      case True
      with o l fresh(1) have ex: "\<exists>m<k. ?tr ! m = End a"
        by (intro IH[of i j k a b] u) (simp_all add: nth_append)
      have le: "k \<le> ?n" using True by simp
      from lift_old[OF fresh(1) le ex] show ?thesis .
    next
      case False
      then have "k - ?n < 3" "[Push t, Begin t, Typing t] ! (k - ?n) = Begin b"
        using l(3) o(3) fresh(1) by (simp_all add: nth_append)
      from nth3_Begin[OF this] False have kb: "k = Suc ?n \<and> b = t" by auto
      then have i: "i < ?n" using o by simp
      then have "?tr ! i = Push a" using l(1) fresh(1) by (simp add: nth_append)
      then have "Push a \<in> set ?tr" using i by (metis nth_mem)
      then have "a \<in> set (pushes (task_user t) ?tr)"
        using u kb pushes_member[of a ?tr] by simp
      then have "End a \<in> set ?tr" using fresh(2) in_ends by simp
      then obtain m where "m < ?n" "?tr ! m = End a" by (auto simp: in_set_conv_nth)
      then show ?thesis using kb fresh(1) by (intro exI[of _ m]) (simp add: nth_append)
    qed
  next
    case more
    show ?thesis
    proof (cases "k < ?n")
      case True
      with o l more(1) have ex: "\<exists>m<k. ?tr ! m = End a"
        by (intro IH[of i j k a b] u) (simp_all add: nth_append)
      have le: "k \<le> ?n" using True by simp
      from lift_old[OF more(1) le ex] show ?thesis .
    next
      case False
      then have "k - ?n < length err + 3" "(err @ [End t, Begin t', Typing t']) ! (k - ?n) = Begin b"
        using l(3) o(3) more(1) by (simp_all add: nth_append)
      from nth_err_Begin[OF more(2) this] False have kb: "k = ?n + length err + 1 \<and> b = t'" by auto
      have j: "j < ?n"
      proof (rule ccontr)
        assume n: "\<not> j < ?n"
        then have "j - ?n < length err + 3" "(err @ [End t, Begin t', Typing t']) ! (j - ?n) = Push b"
          using l(2) o(2) kb more(1) by (simp_all add: nth_append)
        with nth_err_Push[OF more(2)] show False by blast
      qed
      then have ij: "?tr ! i = Push a" "?tr ! j = Push b" using l(1,2) o(1) more(1)
        by (simp_all add: nth_append)
      have "a \<in> set (ends v ?tr) \<or> a = t"
        using earlier_push[OF invD_distinct[OF I] more(4) o(1) j ij(1)] ij(2) kb u more(3)
        by simp
      then show ?thesis
      proof
        assume "a \<in> set (ends v ?tr)"
        then have "End a \<in> set ?tr" by (rule in_ends)
        then obtain m where "m < ?n" "?tr ! m = End a" by (auto simp: in_set_conv_nth)
        then show ?thesis using kb more(1) by (intro exI[of _ m]) (simp add: nth_append)
      next
        assume "a = t"
        then have "trace (step e s) ! (?n + length err) = End a"
          using more(1) by (simp add: nth_append)
        then show ?thesis using kb by (intro exI[of _ "?n + length err"]) simp
      qed
    qed
  qed
qed

lemma fifo_run:
  "i < j \<Longrightarrow> j < k \<Longrightarrow> k < length (trace (run es (init cwd))) \<Longrightarrow>
   trace (run es (init cwd)) ! i = Push a \<Longrightarrow> trace (run es (init cwd)) ! j = Push b \<Longrightarrow>
   trace (run es (init cwd)) ! k = Begin b \<Longrightarrow> task_user a = task_user b \<Longrightarrow>
   \<exists>m<k. trace (run es (init cwd)) ! m = End a"
proof (induction es arbitrary: i j k a b rule: rev_induct)
  case Nil
  then show ?case by (simp add: run_def init_def)
next
  case (snoc e es)
  show ?case
    unfolding run_snoc
  proof (rule fifo_step[OF inv_run])
    show "\<exists>m<k'. trace (run es (init cwd)) ! m = End a'"
      if "i' < j'" "j' < k'" "k' < length (trace (run es (init cwd)))"
        "trace (run es (init cwd)) ! i' = Push a'" "trace (run es (init cwd)) ! j' = Push b'"
        "trace (run es (init cwd)) ! k' = Begin b'" "task_user a' = task_user b'"
      for i' j' k' a' b'
      using that by (rule snoc.IH)
  qed (use snoc.prems in \<open>simp_all add: run_snoc\<close>)
qed

text \<open>A task begins only after it was pushed.\<close>

lemma begun_pushed_step:
  assumes I: "registry_inv s"
    and IH: "\<And>k b. k < length (trace s) \<Longrightarrow> trace s ! k = Begin b \<Longrightarrow> \<exists>j<k. trace s ! j = Push b"
    and k: "k < length (trace (step e s))" "trace (step e s) ! k = Begin b"
  shows "\<exists>j<k. trace (step e s) ! j = Push b"
proof -
  let ?tr = "trace s"
  let ?n = "length ?tr"
  from step_trace_cases[OF I, of e]
  consider (quiet) new where "trace (step e s) = ?tr @ new" "no_begin new"
    | (fresh) t where "trace (step e s) = ?tr @ [Push t, Begin t, Typing t]"
        "pushes (task_user t) ?tr = ends (task_user t) ?tr"
    | (more) v t t' rest err where "trace (step e s) = ?tr @ err @ [End t, Begin t', Typing t']"
        "err = [] \<or> err = [LogError v]" "task_user t' = v"
        "pushes v ?tr = ends v ?tr @ t # t' # rest"
    by blast
  then show ?thesis
  proof cases
    case quiet
    have kn: "k < ?n"
    proof (rule ccontr)
      assume "\<not> k < ?n"
      then have "new ! (k - ?n) = Begin b" "k - ?n < length new"
        using k quiet(1) by (simp_all add: nth_append)
      then have "Begin b \<in> set new" by (metis nth_mem)
      with quiet(2) show False by (auto simp: no_begin_def)
    qed
    with k quiet(1) have ex: "\<exists>j<k. ?tr ! j = Push b" by (intro IH) (simp_all add: nth_append)
    have le: "k \<le> ?n" using kn by simp
    from lift_old[OF quiet(1) le ex] show ?thesis .
  next
    case fresh
    show ?thesis
    proof (cases "k < ?n")
      case True
      with k fresh(1) have ex: "\<exists>j<k. ?tr ! j = Push b" by (intro IH) (simp_all add: nth_append)
      have le: "k \<le> ?n" using True by simp
      from lift_old[OF fresh(1) le ex] show ?thesis .
    next
      case False
      then have "k - ?n < 3" "[Push t, Begin t, Typing t] ! (k - ?n) = Begin b"
        using k fresh(1) by (simp_all add: nth_append)
      from nth3_Begin[OF this] False have "k = Suc ?n \<and> b = t" by auto
      then show ?thesis using fresh(1) by (intro exI[of _ ?n]) (simp add: nth_append)
    qed
  next
    case more
    show ?thesis
    proof (cases "k < ?n")
      case True
      with k more(1) have ex: "\<exists>j<k. ?tr ! j = Push b" by (intro IH) (simp_all add: nth_append)
      have le: "k \<le> ?n" using True by simp
      from lift_old[OF more(1) le ex] show ?thesis .
    next
      case False
      then have "k - ?n < length err + 3" "(err @ [End t, Begin t', Typing t']) ! (k - ?n) = Begin b"
        using k more(1) by (simp_all add: nth_append)
      from nth_err_Begin[OF more(2) this] False have kb: "k = ?n + length err + 1 \<and> b = t'" by auto
      have "t' \<in> set (pushes v ?tr)" using more(4) by simp
      then have "Push t' \<in> set ?tr" using in_pushes by blast
      then obtain j where "j < ?n" "?tr ! j = Push t'" by (auto simp: in_set_conv_nth)
      then show ?thesis using kb more(1) by (intro exI[of _ j]) (simp add: nth_append)
    qed
  qed
qed

lemma begun_pushed_run:
  "k < length (trace (run es (init cwd))) \<Longrightarrow> trace (run es (init cwd)) ! k = Begin b \<Longrightarrow>
   \<exists>j<k. trace (run es (init cwd)) ! j = Push b"
proof (induction es arbitrary: k b rule: rev_induct)
  case Nil
  then show ?case by (simp add: run_def init_def)
next
  case (snoc e es)
  show ?case
    unfolding run_snoc
  proof (rule begun_pushed_step[OF inv_run])
    show "\<exists>j<k'. trace (run es (init cwd)) ! j = Push b'"
      if "k' < length (trace (run es (init cwd)))" "trace (run es (init cwd)) ! k' = Begin b'"
      for k' b'
      using that by (rule snoc.IH)
  qed (use snoc.prems in \<open>simp_all add: run_snoc\<close>)
qed

lemma push_index_unique:
  assumes d: "distinct (all_pushed tr)" and i: "i < length tr" "tr ! i = Push b"
    and j: "j < length tr" "tr ! j = Push b"
  shows "i = j"
proof (rule ccontr)
  assume n: "i \<noteq> j"
  have two: False if "x < y" "y < length tr" "tr ! x = Push b" "tr ! y = Push b" for x y
  proof -
    from pushes_order[OF that refl refl] obtain xs ys zs
      where "pushes (task_user b) tr = xs @ b # ys @ b # zs" by blast
    moreover have "distinct (pushes (task_user b) tr)" using d by (rule distinct_pushes)
    ultimately show False by simp
  qed
  from n consider "i < j" | "j < i" by linarith
  then show False using two i j by cases blast+
qed


text \<open>The definitions that evaluate a run on given events.\<close>

lemmas run_eval = run_def init_def welcomeFlow_def handleQueue_def hq_loop_def hq_settled_def
  hq_finally_def Let_def

lemma rejected_settles:
  "processUserMessage t pc Reject = ([], Rejected)"
  by (cases pc) simp_all

lemmas voice_eval = run_eval voice_chunks_def js_split_def js_replace_def js_trim_def
  path_resolve_def ascii_def is_space_def is_digit_def DOT_def LB_def RB_def


section \<open>The files of the voice note flow\<close>

lemma vtrace_append [simp]: "vtrace v (xs @ ys) = vtrace v xs @ vtrace v ys"
  by (simp add: vtrace_def)

lemma vtrace_Nil [simp]: "vtrace v [] = []"
  by (simp add: vtrace_def)

lemma vtrace_Cons [simp]: "vtrace v (l # ls) = (if concerns v l then l # vtrace v ls else vtrace v ls)"
  by (simp add: vtrace_def)

lemma fresh_thread_ok: "fresh_thread th \<Longrightarrow> vphase_ok sf v th []"
  by (induction th rule: fresh_thread.induct) simp_all

lemma silent_vtrace: "silent ls \<Longrightarrow> vtrace v ls = []"
  by (induction ls) (auto simp: silent_def)

lemma silent_paths: "silent ls \<Longrightarrow> l \<in> set ls \<Longrightarrow> speech_path_ok sf l"
  by (cases l) (auto simp: silent_def)

lemma silent_simps [simp]:
  "silent []" "silent (l # ls) \<longleftrightarrow> (\<forall>v. \<not> concerns v l \<and> (\<forall>p. l \<noteq> WriteFile v p)) \<and> silent ls"
  "silent (xs @ ys) \<longleftrightarrow> silent xs \<and> silent ys"
  by (auto simp: silent_def)

lemma voice_send_files:
  "voice_send v c p response bs = (ls, th, unl) \<Longrightarrow>
   silent ls \<and> (th = Voice c (AtSpeechCreate p) \<or> (\<exists>bs'. th = Voice c (AtSend p response bs')))"
  by (cases bs) auto

lemma voiceNoteFlow_other:
  "voiceNoteFlow sf v c pc out = (ls, th, unl) \<Longrightarrow> j \<noteq> v \<Longrightarrow> vtrace j ls = []"
  by (induction sf v c pc out rule: voiceNoteFlow.induct)
     (auto simp: voice_catch_def silent_vtrace dest!: voice_send_files split: if_splits)

lemma voice_phase_step:
  "voiceNoteFlow sf v c pc out = (ls, th, unl) \<Longrightarrow> vphase_ok sf v (Voice c pc) vt \<Longrightarrow>
   vphase_ok sf v th (vt @ vtrace v ls)"
  by (induction sf v c pc out rule: voiceNoteFlow.induct)
     (auto simp: voice_catch_def silent_vtrace answered_def dest!: voice_send_files split: if_splits)


lemma quiet_pum_silent: "processUserMessage t pc out = (ls, nx) \<Longrightarrow> silent ls"
  by (induction t pc out rule: processUserMessage.induct) (auto split: list.splits)

lemma hq_loop_shape:
  "hq_loop u q s = (r, s') \<Longrightarrow>
   threads s' = threads s \<and> speechFile s' = speechFile s \<and>
   (\<exists>new. trace s' = trace s @ new \<and> silent new) \<and> fresh_thread (after_hq u r)"
  by (auto simp: hq_loop_def split: option.splits if_splits list.splits)

lemma hq_settled_shape:
  "hq_settled u a t ok s = (r, s') \<Longrightarrow>
   threads s' = threads s \<and> speechFile s' = speechFile s \<and>
   (\<exists>new. trace s' = trace s @ new \<and> silent new) \<and> fresh_thread (after_hq u r)"
  by (auto simp: hq_settled_def hq_finally_def dest!: hq_loop_shape)

lemma handleQueue_shape:
  "handleQueue u s = (r, s') \<Longrightarrow>
   threads s' = threads s \<and> speechFile s' = speechFile s \<and>
   (\<exists>new. trace s' = trace s @ new \<and> silent new) \<and> fresh_thread (after_hq u r)"
  by (auto simp: handleQueue_def Let_def dest!: hq_loop_shape split: if_splits)

lemma welcomeFlow_shape:
  "\<exists>x new. threads (welcomeFlow c s) = threads s @ [x] \<and> fresh_thread x \<and>
     trace (welcomeFlow c s) = trace s @ new \<and> silent new \<and>
     speechFile (welcomeFlow c s) = speechFile s"
proof -
  define s1 where "s1 = (if userQueues s (ctx_from c) = None
                then s\<lparr> arrays := arrays s @ [[]],
                        userQueues := (userQueues s)(ctx_from c \<mapsto> length (arrays s)) \<rparr>
                else s)"
  have s1: "threads s1 = threads s" "trace s1 = trace s" "speechFile s1 = speechFile s"
    by (simp_all add: s1_def)
  show ?thesis
  proof (cases "userQueues s1 (ctx_from c)")
    case None
    then have "welcomeFlow c s = s1\<lparr> threads := threads s1 @ [Crashed] \<rparr>"
      by (simp add: welcomeFlow_def Let_def s1_def)
    then show ?thesis using s1 by (intro exI[of _ Crashed] exI[of _ "[]"]) simp
  next
    case (Some a)
    define t where "t = \<lparr> task_ctx = c, task_act = length (threads s) \<rparr>"
    define s2 where "s2 = s1\<lparr> arrays := (arrays s1)[a := arrays s1 ! a @ [t]],
                          trace := trace s1 @ [Push t] \<rparr>"
    have s2: "threads s2 = threads s" "trace s2 = trace s @ [Push t]" "speechFile s2 = speechFile s"
      using s1 by (simp_all add: s2_def)
    show ?thesis
    proof (cases "userLocks s2 (ctx_from c) \<noteq> Some True \<and> length (arrays s2 ! a) = 1")
      case False
      then have "welcomeFlow c s = s2\<lparr> threads := threads s2 @ [Finished] \<rparr>"
        using Some unfolding welcomeFlow_def Let_def s1_def[symmetric] t_def[symmetric]
        by (auto simp: s2_def)
      then show ?thesis using s2 by (intro exI[of _ Finished] exI[of _ "[Push t]"]) simp
    next
      case True
      obtain r s3 where h: "handleQueue (ctx_from c) s2 = (r, s3)"
        by (cases "handleQueue (ctx_from c) s2")
      from True have "welcomeFlow c s = s3\<lparr> threads := threads s3 @ [after_hq (ctx_from c) r] \<rparr>"
        using Some h unfolding welcomeFlow_def Let_def s1_def[symmetric] t_def[symmetric]
        by (simp add: s2_def)
      moreover from handleQueue_shape[OF h] obtain new where
        "threads s3 = threads s2" "speechFile s3 = speechFile s2" "trace s3 = trace s2 @ new"
        "silent new" "fresh_thread (after_hq (ctx_from c) r)"
        by blast
      ultimately show ?thesis using s2
        by (intro exI[of _ "after_hq (ctx_from c) r"] exI[of _ "Push t # new"]) simp
    qed
  qed
qed


lemma voice_inv_update:
  assumes V: "voice_inv s"
    and shape: "threads s' = (threads s)[i := th] @ extra" "i < length (threads s)"
      "speechFile s' = speechFile s" "trace s' = trace s @ new"
    and others: "\<And>j. j \<noteq> i \<Longrightarrow> vtrace j new = []"
    and mine: "vphase_ok (speechFile s) i th (vtrace i (trace s) @ vtrace i new)"
    and extra: "\<And>x. x \<in> set extra \<Longrightarrow> fresh_thread x"
  shows "voice_inv s'"
  unfolding voice_inv_def
proof (intro allI)
  fix v
  from V have old: "if v < length (threads s)
      then vphase_ok (speechFile s) v (threads s ! v) (vtrace v (trace s))
      else vtrace v (trace s) = []"
    unfolding voice_inv_def by blast
  show "if v < length (threads s')
      then vphase_ok (speechFile s') v (threads s' ! v) (vtrace v (trace s'))
      else vtrace v (trace s') = []"
  proof (cases "v < length (threads s)")
    case True
    show ?thesis
    proof (cases "v = i")
      case True
      then show ?thesis using mine shape by (simp add: nth_append)
    next
      case False
      then show ?thesis using old True others[OF False] shape by (simp add: nth_append)
    qed
  next
    case False
    then have vi: "v \<noteq> i" using shape(2) by auto
    from False old have e: "vtrace v (trace s) = []" by simp
    show ?thesis
    proof (cases "v < length (threads s')")
      case True
      then have "threads s' ! v \<in> set extra" using False shape(1) by (simp add: nth_append)
      then have "fresh_thread (threads s' ! v)" by (rule extra)
      then show ?thesis using True e others[OF vi] shape by (simp add: fresh_thread_ok)
    next
      case False
      then show ?thesis using e others[OF vi] shape by simp
    qed
  qed
qed

lemma voice_inv_spawn:
  assumes V: "voice_inv s"
    and shape: "threads s' = threads s @ [x]" "fresh_thread x"
      "speechFile s' = speechFile s" "trace s' = trace s @ new" "silent new"
  shows "voice_inv s'"
  unfolding voice_inv_def
proof (intro allI)
  fix v
  from V have old: "if v < length (threads s)
      then vphase_ok (speechFile s) v (threads s ! v) (vtrace v (trace s))
      else vtrace v (trace s) = []"
    unfolding voice_inv_def by blast
  have n: "vtrace v new = []" using shape(5) by (simp add: silent_vtrace)
  show "if v < length (threads s')
      then vphase_ok (speechFile s') v (threads s' ! v) (vtrace v (trace s'))
      else vtrace v (trace s') = []"
  proof (cases "v < length (threads s)")
    case True
    then show ?thesis using old n shape by (simp add: nth_append)
  next
    case False
    then show ?thesis using old n shape by (cases "v = length (threads s)") (simp_all add: fresh_thread_ok)
  qed
qed

lemma voice_inv_thread:
  "voice_inv s \<Longrightarrow> v < length (threads s) \<Longrightarrow>
   vphase_ok (speechFile s) v (threads s ! v) (vtrace v (trace s))"
  unfolding voice_inv_def by (auto split: if_splits dest!: spec[of _ v])

lemma voice_inv_resume:
  assumes V: "voice_inv s" and i: "i < length (threads s)"
  shows "voice_inv (resume i (threads s ! i) out s) \<and>
     speechFile (resume i (threads s ! i) out s) = speechFile s"
proof (cases "threads s ! i")
  case (Drain u a t dpc)
  from voice_inv_thread[OF V i] Drain have e: "vtrace i (trace s) = []" by simp
  show ?thesis
  proof (cases dpc)
    case (InProcess pc)
    obtain ls nx where p: "processUserMessage t pc out = (ls, nx)"
      by (cases "processUserMessage t pc out")
    from quiet_pum_silent[OF p] have sl: "silent ls" .
    define th where "th = Drain u a t (case nx of Continue pc' \<Rightarrow> InProcess pc'
                           | Fulfilled \<Rightarrow> Settled True | Rejected \<Rightarrow> Settled False)"
    define s' where "s' = resume i (threads s ! i) out s"
    have f: "threads s' = (threads s)[i := th] @ []" "speechFile s' = speechFile s"
      "trace s' = trace s @ ls"
      using Drain InProcess p by (simp_all add: s'_def th_def)
    have "voice_inv s'"
      using V f(1) i f(2,3)
    proof (rule voice_inv_update)
      show "vtrace j ls = []" for j using sl by (simp add: silent_vtrace)
      show "vphase_ok (speechFile s) i th (vtrace i (trace s) @ vtrace i ls)"
        using e sl by (simp add: silent_vtrace th_def)
    qed simp
    then show ?thesis using f by (simp add: s'_def)
  next
    case (Settled ok)
    obtain r s1 where h: "hq_settled u a t ok s = (r, s1)" by (cases "hq_settled u a t ok s")
    from hq_settled_shape[OF h] obtain new where
      s1: "threads s1 = threads s" "speechFile s1 = speechFile s" "trace s1 = trace s @ new"
      "silent new" "fresh_thread (after_hq u r)"
      by blast
    define s' where "s' = resume i (threads s ! i) out s"
    have f: "threads s' = (threads s)[i := after_hq u r] @ []" "speechFile s' = speechFile s"
      "trace s' = trace s @ new"
      using Drain Settled h s1 by (simp_all add: s'_def)
    have "voice_inv s'"
      using V f(1) i f(2,3)
    proof (rule voice_inv_update)
      show "vtrace j new = []" for j using s1(4) by (simp add: silent_vtrace)
      show "vphase_ok (speechFile s) i (after_hq u r) (vtrace i (trace s) @ vtrace i new)"
        using e s1(4,5) by (simp add: silent_vtrace fresh_thread_ok)
    qed simp
    then show ?thesis using f by (simp add: s'_def)
  qed
next
  case (Voice c pc)
  obtain ls th unl where v: "voiceNoteFlow (speechFile s) i c pc out = (ls, th, unl)"
    by (cases "voiceNoteFlow (speechFile s) i c pc out")
  define s' where "s' = resume i (threads s ! i) out s"
  have f: "threads s' = (threads s)[i := th] @ (case unl of None \<Rightarrow> [] | Some p \<Rightarrow> [Unlinking p])"
    "speechFile s' = speechFile s" "trace s' = trace s @ ls"
    using Voice v by (simp_all add: s'_def)
  have "voice_inv s'"
    using V f(1) i f(2,3)
  proof (rule voice_inv_update)
    show "vtrace j ls = []" if "j \<noteq> i" for j using voiceNoteFlow_other[OF v that] .
    show "vphase_ok (speechFile s) i th (vtrace i (trace s) @ vtrace i ls)"
      using voice_phase_step[OF v] voice_inv_thread[OF V i] Voice by simp
    show "fresh_thread x" if "x \<in> set (case unl of None \<Rightarrow> [] | Some p \<Rightarrow> [Unlinking p])" for x
      using that by (cases unl) auto
  qed
  then show ?thesis using f by (simp add: s'_def)
next
  case (Unlinking p)
  from voice_inv_thread[OF V i] Unlinking have e: "vtrace i (trace s) = []" by simp
  define s' where "s' = resume i (threads s ! i) out s"
  define new where "new = [case out of Resolve v \<Rightarrow> LogDeleted p | Reject \<Rightarrow> LogDeleteError p]"
  have f: "threads s' = (threads s)[i := Finished] @ []" "speechFile s' = speechFile s"
    "trace s' = trace s @ new"
    using Unlinking by (simp_all add: s'_def new_def)
  have sl: "silent new" by (cases out) (simp_all add: new_def)
  have "voice_inv s'"
    using V f(1) i f(2,3)
  proof (rule voice_inv_update)
    show "vtrace j new = []" for j using sl by (simp add: silent_vtrace)
    show "vphase_ok (speechFile s) i Finished (vtrace i (trace s) @ vtrace i new)"
      using e sl by (simp add: silent_vtrace)
  qed simp
  then show ?thesis using f by (simp add: s'_def)
next
  case Finished
  then show ?thesis using V by simp
next
  case Crashed
  then show ?thesis using V by simp
qed

lemma voice_inv_step:
  assumes V: "voice_inv s"
  shows "voice_inv (step e s) \<and> speechFile (step e s) = speechFile s"
proof (cases e)
  case (Welcome c)
  from welcomeFlow_shape[of c s] obtain x new where
    "threads (welcomeFlow c s) = threads s @ [x]" "fresh_thread x"
    "speechFile (welcomeFlow c s) = speechFile s" "trace (welcomeFlow c s) = trace s @ new"
    "silent new"
    by blast
  from voice_inv_spawn[OF V this] this(3) show ?thesis using Welcome by simp
next
  case (VoiceNote c)
  have "voice_inv (step (VoiceNote c) s)"
    using V by (rule voice_inv_spawn[where x = "Voice c AtSaveFile" and new = "[SaveFile (length (threads s))]"]) simp_all
  then show ?thesis using VoiceNote by simp
next
  case (Settle i out)
  then show ?thesis using V voice_inv_resume[of s i out] by simp
qed

lemma voice_inv_run:
  "voice_inv (run es (init cwd)) \<and> speechFile (run es (init cwd)) = speechFile (init cwd)"
proof (induction es rule: rev_induct)
  case Nil
  then show ?case by (simp add: run_def voice_inv_def init_def)
next
  case (snoc e es)
  then show ?case using voice_inv_step[of "run es (init cwd)" e] by (simp add: run_snoc)
qed












lemma voiceNoteFlow_paths:
  "voiceNoteFlow sf v c pc out = (ls, th, unl) \<Longrightarrow> l \<in> set ls \<Longrightarrow> speech_path_ok sf l"
  by (cases "(sf, v, c, pc, out)" rule: voiceNoteFlow.cases)
     (auto simp: voice_catch_def dest!: voice_send_files intro: silent_paths split: if_splits)

lemma step_paths:
  "\<exists>new. trace (step e s) = trace s @ new \<and> (\<forall>l\<in>set new. speech_path_ok (speechFile s) l)"
proof (cases e)
  case (Welcome c)
  from welcomeFlow_shape[of c s] obtain x new where
    "trace (welcomeFlow c s) = trace s @ new" "silent new"
    by blast
  then show ?thesis using Welcome silent_paths by auto
next
  case (VoiceNote c)
  then show ?thesis by simp
next
  case (Settle i out)
  show ?thesis
  proof (cases "i < length (threads s)")
    case False
    then show ?thesis using Settle by simp
  next
    case i: True
    show ?thesis
    proof (cases "threads s ! i")
      case (Drain u a t dpc)
      show ?thesis
      proof (cases dpc)
        case (InProcess pc)
        obtain ls nx where p: "processUserMessage t pc out = (ls, nx)"
          by (cases "processUserMessage t pc out")
        from quiet_pum_silent[OF p] silent_paths have "\<forall>l\<in>set ls. speech_path_ok (speechFile s) l"
          by blast
        then show ?thesis using Settle i Drain InProcess p by simp
      next
        case (Settled ok)
        obtain r s1 where h: "hq_settled u a t ok s = (r, s1)" by (cases "hq_settled u a t ok s")
        from hq_settled_shape[OF h] obtain new where "trace s1 = trace s @ new" "silent new"
          by blast
        then show ?thesis using Settle i Drain Settled h silent_paths by auto
      qed
    next
      case (Voice c pc)
      obtain ls th unl where v: "voiceNoteFlow (speechFile s) i c pc out = (ls, th, unl)"
        by (cases "voiceNoteFlow (speechFile s) i c pc out")
      from voiceNoteFlow_paths[OF v] show ?thesis using Settle i Voice v by simp
    next
      case (Unlinking p)
      then show ?thesis using Settle i by (simp split: outcome.splits)
    next
      case Finished
      then show ?thesis using Settle i by simp
    next
      case Crashed
      then show ?thesis using Settle i by simp
    qed
  qed
qed

lemma paths_run:
  "l \<in> set (trace (run es (init cwd))) \<Longrightarrow> speech_path_ok (speechFile (init cwd)) l"
proof (induction es arbitrary: l rule: rev_induct)
  case Nil
  then show ?case by (simp add: run_def init_def)
next
  case (snoc e es)
  from step_paths[of e "run es (init cwd)"] obtain new where
    n: "trace (step e (run es (init cwd))) = trace (run es (init cwd)) @ new"
       "\<forall>l\<in>set new. speech_path_ok (speechFile (run es (init cwd))) l"
    by blast
  have "speechFile (run es (init cwd)) = speechFile (init cwd)" using voice_inv_run by blast
  with n snoc show ?case by (auto simp: run_snoc)
qed


section \<open>A failing task\<close>

lemma failure_step:
  assumes I: "registry_inv s" and i: "i < length (threads s)"
    and th: "threads s ! i = Drain u a t (InProcess pc)"
  shows "let s1 = step (Settle i Reject) s;
             s2 = step (Settle i out) s1
         in threads s1 ! i = Drain u a t (Settled False) \<and>
            trace s1 = trace s \<and>
            userLocks (hq_finally u t False s1) u = Some False \<and>
            trace s2 = trace s @ [LogError u, End t] @
              (case arrays s ! a of [] \<Rightarrow> [] | t' # rest \<Rightarrow> [Begin t', Typing t']) \<and>
            threads s2 ! i =
              (case arrays s ! a of [] \<Rightarrow> Finished
               | t' # rest \<Rightarrow> Drain u a t' (InProcess AwaitTyping)) \<and>
            userLocks s2 u = (case arrays s ! a of [] \<Rightarrow> None | t' # rest \<Rightarrow> Some True) \<and>
            userQueues s2 u = (case arrays s ! a of [] \<Rightarrow> None | t' # rest \<Rightarrow> Some a) \<and>
            arrays s2 ! a = (case arrays s ! a of [] \<Rightarrow> [] | t' # rest \<Rightarrow> rest) \<and>
            length (threads s2) = length (threads s) \<and>
            (\<forall>j. j \<noteq> i \<longrightarrow> threads s2 ! j = threads s ! j)"
proof -
  define s1 where "s1 = step (Settle i Reject) s"
  define s2 where "s2 = step (Settle i out) s1"
  note D = invD_drain[OF I i th]
  have a: "a < length (arrays s)" using D by simp
  have s1: "s1 = s\<lparr> threads := (threads s)[i := Drain u a t (Settled False)] \<rparr>"
    using i th by (simp add: s1_def rejected_settles)
  have t1: "threads s1 ! i = Drain u a t (Settled False)" "i < length (threads s1)"
    "arrays s1 = arrays s" "trace s1 = trace s" "userLocks s1 = userLocks s"
    using i by (simp_all add: s1)
  have s2: "s2 = (case hq_settled u a t False s1 of
      (r, s') \<Rightarrow> s'\<lparr> threads := (threads s')[i := after_hq u r] \<rparr>)"
    using t1 by (simp add: s2_def)
  have "threads s1 ! i = Drain u a t (Settled False) \<and>
     trace s1 = trace s \<and>
     userLocks (hq_finally u t False s1) u = Some False \<and>
     trace s2 = trace s @ [LogError u, End t] @
       (case arrays s ! a of [] \<Rightarrow> [] | t' # rest \<Rightarrow> [Begin t', Typing t']) \<and>
     threads s2 ! i =
       (case arrays s ! a of [] \<Rightarrow> Finished | t' # rest \<Rightarrow> Drain u a t' (InProcess AwaitTyping)) \<and>
     userLocks s2 u = (case arrays s ! a of [] \<Rightarrow> None | t' # rest \<Rightarrow> Some True) \<and>
     userQueues s2 u = (case arrays s ! a of [] \<Rightarrow> None | t' # rest \<Rightarrow> Some a) \<and>
     arrays s2 ! a = (case arrays s ! a of [] \<Rightarrow> [] | t' # rest \<Rightarrow> rest) \<and>
     length (threads s2) = length (threads s) \<and>
     (\<forall>j. j \<noteq> i \<longrightarrow> threads s2 ! j = threads s ! j)"
  proof (cases "arrays s ! a")
    case Nil
    then have "hq_settled u a t False s1 =
       (Returned, s1\<lparr> userLocks := (userLocks s1)(u := None),
                       userQueues := (userQueues s1)(u := None),
                       trace := trace s1 @ (if False then [] else [LogError u]) @ [End t] \<rparr>)"
      using a t1 by (intro hq_settled_empty) simp_all
    then show ?thesis using Nil t1 i by (simp add: s2 s1 hq_finally_def)
  next
    case (Cons t' rest)
    then have "hq_settled u a t False s1 =
       (Suspended a t' AwaitTyping,
        s1\<lparr> userLocks := (userLocks s1)(u \<mapsto> True),
            arrays := (arrays s1)[a := rest],
            trace := trace s1 @ (if False then [] else [LogError u]) @ [End t, Begin t', Typing t'] \<rparr>)"
      using a t1 by (intro hq_settled_next) simp_all
    then show ?thesis using Cons t1 i a D by (simp add: s2 s1 hq_finally_def)
  qed
  then show ?thesis by (simp add: s1_def s2_def Let_def)
qed

lemma run_append: "run (xs @ ys) s = run ys (run xs s)"
  by (simp add: run_def)

lemma all_failures_drain:
  assumes "i < length (threads (run es (init cwd)))"
    and "threads (run es (init cwd)) ! i = Drain u a t (InProcess pc)"
    and "arrays (run es (init cwd)) ! a = q"
  shows "let s' = run (concat (replicate (Suc (length q)) [Settle i Reject, Settle i Reject]))
                    (run es (init cwd))
         in trace s' = trace (run es (init cwd)) @ fail_trace u t q \<and>
            threads s' ! i = Finished \<and> userQueues s' u = None \<and> userLocks s' u = None"
  using assms
proof (induction q arbitrary: es t pc)
  case Nil
  from failure_step[OF inv_run Nil(1,2), of Reject] Nil(3)
  show ?case by (simp add: Let_def run_def)
next
  case (Cons t' rest)
  let ?s = "run es (init cwd)"
  let ?es2 = "es @ [Settle i Reject, Settle i Reject]"
  have s2: "run ?es2 (init cwd) = step (Settle i Reject) (step (Settle i Reject) ?s)"
    by (simp add: run_def)
  from failure_step[OF inv_run Cons.prems(1,2), of Reject] Cons.prems(3)
  have f: "trace (run ?es2 (init cwd)) = trace ?s @ [LogError u, End t, Begin t', Typing t']"
    "threads (run ?es2 (init cwd)) ! i = Drain u a t' (InProcess AwaitTyping)"
    "arrays (run ?es2 (init cwd)) ! a = rest"
    "i < length (threads (run ?es2 (init cwd)))"
    using Cons.prems(1) unfolding s2 by (simp_all add: Let_def)
  from Cons.IH[OF f(4) f(2) f(3)]
  have "let s' = run (concat (replicate (Suc (length rest)) [Settle i Reject, Settle i Reject]))
                    (run ?es2 (init cwd))
         in trace s' = trace (run ?es2 (init cwd)) @ fail_trace u t' rest \<and>
            threads s' ! i = Finished \<and> userQueues s' u = None \<and> userLocks s' u = None" .
  moreover have "run (concat (replicate (Suc (length (t' # rest))) [Settle i Reject, Settle i Reject])) ?s
     = run (concat (replicate (Suc (length rest)) [Settle i Reject, Settle i Reject])) (run ?es2 (init cwd))"
    by (simp add: run_def)
  ultimately show ?case using f(1) by (simp add: Let_def)
qed


section \<open>The chunks delivered\<close>




lemma resume_other_thread:
  assumes "j \<noteq> i" "i < length (threads s)" "j < length (threads s)"
  shows "threads (resume j th out s) ! i = threads s ! i \<and> i < length (threads (resume j th out s))"
proof (cases th)
  case (Drain u a t dpc)
  show ?thesis
  proof (cases dpc)
    case (InProcess pc)
    then show ?thesis using Drain assms by (simp split: prod.splits)
  next
    case (Settled ok)
    obtain r s1 where h: "hq_settled u a t ok s = (r, s1)" by (cases "hq_settled u a t ok s")
    from hq_settled_shape[OF h] have "threads s1 = threads s" by blast
    then show ?thesis using Drain Settled h assms by simp
  qed
next
  case (Voice c pc)
  then show ?thesis using assms by (simp split: prod.splits add: nth_append)
qed (use assms in simp_all)

lemma step_other_thread:
  assumes "settles i [e] = []" "i < length (threads s)"
  shows "threads (step e s) ! i = threads s ! i \<and> i < length (threads (step e s))"
proof (cases e)
  case (Welcome c)
  from welcomeFlow_shape[of c s] obtain x where "threads (welcomeFlow c s) = threads s @ [x]"
    by blast
  then show ?thesis using Welcome assms by (simp add: nth_append)
next
  case (VoiceNote c)
  then show ?thesis using assms by (simp add: nth_append)
next
  case (Settle j out)
  with assms(1) have "j \<noteq> i" by (simp split: if_splits)
  then show ?thesis using Settle assms(2) resume_other_thread[of j i s] by simp
qed



lemma voice_sends_emitted:
  "i < length (threads s) \<Longrightarrow> threads s ! i = Voice c (AtSend p r bs) \<Longrightarrow>
   settles i es = map Resolve xs \<Longrightarrow> length xs \<le> length bs \<Longrightarrow>
   emitted i es s = map (VDeliver i) (take (length xs) bs)"
proof (induction es arbitrary: s bs xs)
  case Nil
  then show ?case by simp
next
  case (Cons e es)
  show ?case
  proof (cases "settles i [e] = []")
    case True
    then have se: "settles i (e # es) = settles i es" and em: "emitted i (e # es) s = emitted i es (step e s)"
      by (cases e; simp split: if_splits)+
    from step_other_thread[OF True Cons.prems(1)] Cons.prems(2)
    have "i < length (threads (step e s))" "threads (step e s) ! i = Voice c (AtSend p r bs)"
      by simp_all
    from Cons.IH[OF this] Cons.prems(3,4) se em show ?thesis by simp
  next
    case False
    then obtain out where e: "e = Settle i out" by (cases e) (auto split: if_splits)
    with Cons.prems(3) obtain x xs' where xs: "xs = x # xs'" "out = Resolve x" "settles i es = map Resolve xs'"
      by (cases xs) auto
    with Cons.prems(4) obtain b bs' where bs: "bs = b # bs'" by (cases bs) auto
    let ?s = "step e s"
    have st: "i < length (threads ?s)" "threads ?s ! i = Voice c (AtSend p r bs')"
      "trace ?s = trace s @ [VDeliver i b]"
      using e xs bs Cons.prems(1,2) by simp_all
    from Cons.IH[OF st(1,2) xs(3)] Cons.prems(4) xs bs
    have "emitted i es ?s = map (VDeliver i) (take (length xs') bs')" by simp
    then show ?thesis using e st(3) xs bs by simp
  qed
qed

lemma voice_delivery:
  "i < length (threads s) \<Longrightarrow> threads s ! i = Voice c (AtAsk p) \<Longrightarrow>
   settles i es = Resolve r # map Resolve xs \<Longrightarrow> length xs < length (voice_chunks r) \<Longrightarrow>
   emitted i es s = map (VDeliver i) (take (Suc (length xs)) (voice_chunks r))"
proof (induction es arbitrary: s)
  case Nil
  then show ?case by simp
next
  case (Cons e es)
  show ?case
  proof (cases "settles i [e] = []")
    case True
    then have se: "settles i (e # es) = settles i es" and em: "emitted i (e # es) s = emitted i es (step e s)"
      by (cases e; simp split: if_splits)+
    from step_other_thread[OF True Cons.prems(1)] Cons.prems(2)
    have "i < length (threads (step e s))" "threads (step e s) ! i = Voice c (AtAsk p)"
      by simp_all
    from Cons.IH[OF this] Cons.prems(3,4) se em show ?thesis by simp
  next
    case False
    then obtain out where e: "e = Settle i out" by (cases e) (auto split: if_splits)
    with Cons.prems(3) have o: "out = Resolve r" "settles i es = map Resolve xs" by simp_all
    from Cons.prems(4) obtain b bs where bs: "voice_chunks r = b # bs" by (cases "voice_chunks r") auto
    let ?s = "step e s"
    have st: "i < length (threads ?s)" "threads ?s ! i = Voice c (AtSend p r bs)"
      "trace ?s = trace s @ [VDeliver i b]"
      using e o bs Cons.prems(1,2) by simp_all
    from Cons.prems(4) bs have "length xs \<le> length bs" by simp
    from voice_sends_emitted[OF st(1,2) o(2) this]
    show ?thesis using e st(3) bs by simp
  qed
qed


section \<open>The queue of the welcome flow\<close>

text \<open>
  Among the tasks of the welcome flow no two of one user are inside the processing step
  at the same time, in any state that the program reaches, whatever the order in which
  messages arrive and promises settle: a user has at most one drain.
\<close>

lemma queued_tasks_exclusive:
  assumes "i \<noteq> j" "i < length (threads (run es (init cwd)))" "j < length (threads (run es (init cwd)))"
    "queued_processing u (threads (run es (init cwd)) ! i)"
  shows "\<not> queued_processing u (threads (run es (init cwd)) ! j)"
proof
  assume "queued_processing u (threads (run es (init cwd)) ! j)"
  moreover have "queued_processing u th \<Longrightarrow> drains u th" for th
    by (induction u th rule: queued_processing.induct) simp_all
  ultimately have "drains u (threads (run es (init cwd)) ! i)" "drains u (threads (run es (init cwd)) ! j)"
    using assms(4) by blast+
  from invD_unique[OF inv_run assms(2,3) this] assms(1) show False by simp
qed


section \<open>Two voice activations and the one speech file\<close>

text \<open>
  The order of the steps of one activation says nothing about another activation: the
  speech file has one path. Two voice notes arrive; the first activation runs up to its
  answer; the second writes its speech to the file; the first then starts the deletion of
  the file; the second issues its answer with the media afterwards.
\<close>

lemma speech_unlink_between_activations:
  "filter (\<lambda>l. l = WriteFile 1 (ascii ''/bot/assets/audio_bot/speech.mp3'') \<or>
               l = UnlinkSpeech 0 (ascii ''/bot/assets/audio_bot/speech.mp3'') \<or>
               l = SendMedia 1 (ascii ''/bot/assets/audio_bot/speech.mp3''))
     (trace (run [VoiceNote \<lparr> ctx_from = [0x75], ctx_body = [] \<rparr>,
        VoiceNote \<lparr> ctx_from = [0x77], ctx_body = [] \<rparr>,
        Settle 0 (Resolve [0x61]), Settle 0 (Resolve [0x68, 0x69]), Settle 0 (Resolve []),
        Settle 0 (Resolve [0x4F, 0x6B]), Settle 0 (Resolve []), Settle 0 (Resolve []),
        Settle 0 (Resolve []), Settle 0 (Resolve []), Settle 0 (Resolve []),
        Settle 0 (Resolve []), Settle 0 (Resolve []),
        Settle 1 (Resolve [0x62]), Settle 1 (Resolve [0x68, 0x69]), Settle 1 (Resolve []),
        Settle 1 (Resolve [0x4F, 0x6B]), Settle 1 (Resolve []), Settle 1 (Resolve []),
        Settle 1 (Resolve []),
        Settle 0 (Resolve []),
        Settle 1 (Resolve []), Settle 1 (Resolve []), Settle 1 (Resolve []),
        Settle 1 (Resolve [])] (init (ascii ''/bot'')))) =
   [WriteFile 1 (ascii ''/bot/assets/audio_bot/speech.mp3''),
    UnlinkSpeech 0 (ascii ''/bot/assets/audio_bot/speech.mp3''),
    SendMedia 1 (ascii ''/bot/assets/audio_bot/speech.mp3'')]"
  by (simp add: voice_eval)


section \<open>The claims\<close>

text \<open>
  C1 fails in the code. The welcome flow serialises the messages of a user through
  \<^verbatim>\<open>userQueues\<close> and \<^verbatim>\<open>userLocks\<close> (lines 18 and 121 to 131, lemma
  \<open>queued_tasks_exclusive\<close>); the voice note flow (lines 89 to 111) sends the same typing
  signal, makes the same completion call on the same state and delivers chunks in the same
  way, and consults neither map. The user \<open>u\<close> sends the text message \<open>hi\<close> and then a
  voice note. While the text message is inside \<^verbatim>\<open>processUserMessage\<close>, waiting for
  its typing signal, the voice note is saved and transcribed and sends its own typing
  signal: two messages of one user are inside the processing step at the same time.
\<close>

theorem voice_note_bypasses_queue:
  "processing [0x75]
     (threads (run [Welcome \<lparr> ctx_from = [0x75], ctx_body = [0x68, 0x69] \<rparr>,
                    VoiceNote \<lparr> ctx_from = [0x75], ctx_body = [] \<rparr>,
                    Settle 1 (Resolve [0x61]), Settle 1 (Resolve [0x68, 0x69])] (init [])) ! 0) \<and>
   processing [0x75]
     (threads (run [Welcome \<lparr> ctx_from = [0x75], ctx_body = [0x68, 0x69] \<rparr>,
                    VoiceNote \<lparr> ctx_from = [0x75], ctx_body = [] \<rparr>,
                    Settle 1 (Resolve [0x61]), Settle 1 (Resolve [0x68, 0x69])] (init [])) ! 1)"
  by (simp add: run_eval processing_def)


text \<open>
  C2: if a task \<open>a\<close> is pushed before a task \<open>b\<close> of the same user, then wherever
  the processing of \<open>b\<close> begins in the trace, the finally block for \<open>a\<close> has run
  before: the processing of \<open>a\<close>, its error handling included, is complete.
\<close>

theorem fifo_per_user:
  assumes "i < j" "j < length (trace (run es (init cwd)))"
    "trace (run es (init cwd)) ! i = Push a" "trace (run es (init cwd)) ! j = Push b"
    "ctx_from (task_ctx a) = ctx_from (task_ctx b)"
  shows "precedes (End a) (Begin b) (trace (run es (init cwd)))"
  unfolding precedes_def
proof (intro allI impI)
  let ?tr = "trace (run es (init cwd))"
  fix k
  assume k: "k < length ?tr" "?tr ! k = Begin b"
  from begun_pushed_run[OF k] obtain j' where j': "j' < k" "?tr ! j' = Push b" by blast
  have "j' = j"
    using push_index_unique[OF invD_distinct[OF inv_run], of j' es cwd b j] j' k assms by simp
  then have "j < k" using j' by simp
  from fifo_run[OF assms(1) this k(1) assms(3,4) k(2)] assms(5)
  show "\<exists>m<k. ?tr ! m = End a" by (simp add: task_user_def)
qed

theorem fifo_per_user_witness:
  "trace (run [Welcome \<lparr> ctx_from = [0x75], ctx_body = [0x68, 0x69] \<rparr>,
               Welcome \<lparr> ctx_from = [0x75], ctx_body = [0x62, 0x79, 0x65] \<rparr>,
               Settle 0 Reject, Settle 0 Reject] (init [])) =
     [Push \<lparr> task_ctx = \<lparr> ctx_from = [0x75], ctx_body = [0x68, 0x69] \<rparr>, task_act = 0 \<rparr>,
      Begin \<lparr> task_ctx = \<lparr> ctx_from = [0x75], ctx_body = [0x68, 0x69] \<rparr>, task_act = 0 \<rparr>,
      Typing \<lparr> task_ctx = \<lparr> ctx_from = [0x75], ctx_body = [0x68, 0x69] \<rparr>, task_act = 0 \<rparr>,
      Push \<lparr> task_ctx = \<lparr> ctx_from = [0x75], ctx_body = [0x62, 0x79, 0x65] \<rparr>, task_act = 1 \<rparr>,
      LogError [0x75],
      End \<lparr> task_ctx = \<lparr> ctx_from = [0x75], ctx_body = [0x68, 0x69] \<rparr>, task_act = 0 \<rparr>,
      Begin \<lparr> task_ctx = \<lparr> ctx_from = [0x75], ctx_body = [0x62, 0x79, 0x65] \<rparr>, task_act = 1 \<rparr>,
      Typing \<lparr> task_ctx = \<lparr> ctx_from = [0x75], ctx_body = [0x62, 0x79, 0x65] \<rparr>, task_act = 1 \<rparr>] \<and>
   precedes
     (End \<lparr> task_ctx = \<lparr> ctx_from = [0x75], ctx_body = [0x68, 0x69] \<rparr>, task_act = 0 \<rparr>)
     (Begin \<lparr> task_ctx = \<lparr> ctx_from = [0x75], ctx_body = [0x62, 0x79, 0x65] \<rparr>, task_act = 1 \<rparr>)
     (trace (run [Welcome \<lparr> ctx_from = [0x75], ctx_body = [0x68, 0x69] \<rparr>,
               Welcome \<lparr> ctx_from = [0x75], ctx_body = [0x62, 0x79, 0x65] \<rparr>,
               Settle 0 Reject, Settle 0 Reject] (init [])))"
proof -
  let ?es = "[Welcome \<lparr> ctx_from = [0x75], ctx_body = [0x68, 0x69] \<rparr>,
               Welcome \<lparr> ctx_from = [0x75], ctx_body = [0x62, 0x79, 0x65] \<rparr>,
               Settle 0 Reject, Settle 0 Reject]"
  let ?A = "\<lparr> task_ctx = \<lparr> ctx_from = [0x75], ctx_body = [0x68, 0x69] \<rparr>, task_act = 0 \<rparr>"
  let ?B = "\<lparr> task_ctx = \<lparr> ctx_from = [0x75], ctx_body = [0x62, 0x79, 0x65] \<rparr>, task_act = 1 \<rparr>"
  have tr: "trace (run ?es (init [])) =
     [Push ?A, Begin ?A, Typing ?A, Push ?B, LogError [0x75], End ?A, Begin ?B, Typing ?B]"
    by (simp add: run_eval)
  have "precedes (End ?A) (Begin ?B) (trace (run ?es (init [])))"
    by (rule fifo_per_user [of 0 3]) (simp_all add: tr)
  with tr show ?thesis by simp
qed


text \<open>
  C3: when the processing of a task fails (what \<^verbatim>\<open>processUserMessage\<close> awaits is
  rejected, at the typing signal, at the completion call or at a chunk), the rejection
  arrives at line 50 and nowhere else; there it is caught and logged, the finally block
  sets the lock of the user to false, and the loop goes on in the same run: it takes the
  next task of the queue and begins to process it, lock set, or, the queue being empty,
  removes the lock and the queue and returns. The drain does not crash, and no other
  activation is touched. And no failure keeps a later task from its turn: if the task and
  every task of the queue fail at their first await, two settlements for each of them
  drain the queue, every task begun in order and every failure logged.
\<close>

theorem failure_isolated:
  assumes i: "i < length (threads (run es (init cwd)))"
    and th: "threads (run es (init cwd)) ! i = Drain u a t (InProcess pc)"
  shows "(let s = run es (init cwd);
              s1 = step (Settle i Reject) s;
              s2 = step (Settle i out) s1
          in threads s1 ! i = Drain u a t (Settled False) \<and>
             trace s1 = trace s \<and>
             userLocks (hq_finally u t False s1) u = Some False \<and>
             trace s2 = trace s @ [LogError u, End t] @
               (case arrays s ! a of [] \<Rightarrow> [] | t' # rest \<Rightarrow> [Begin t', Typing t']) \<and>
             threads s2 ! i =
               (case arrays s ! a of [] \<Rightarrow> Finished
                | t' # rest \<Rightarrow> Drain u a t' (InProcess AwaitTyping)) \<and>
             userLocks s2 u = (case arrays s ! a of [] \<Rightarrow> None | t' # rest \<Rightarrow> Some True) \<and>
             userQueues s2 u = (case arrays s ! a of [] \<Rightarrow> None | t' # rest \<Rightarrow> Some a) \<and>
             arrays s2 ! a = (case arrays s ! a of [] \<Rightarrow> [] | t' # rest \<Rightarrow> rest) \<and>
             length (threads s2) = length (threads s) \<and>
             (\<forall>j. j \<noteq> i \<longrightarrow> threads s2 ! j = threads s ! j)) \<and>
         (let s = run es (init cwd);
              s' = run (concat (replicate (Suc (length (arrays s ! a)))
                     [Settle i Reject, Settle i Reject])) s
          in trace s' = trace s @ fail_trace u t (arrays s ! a) \<and>
             threads s' ! i = Finished \<and> userQueues s' u = None \<and> userLocks s' u = None)"
proof
  show "let s = run es (init cwd);
              s1 = step (Settle i Reject) s;
              s2 = step (Settle i out) s1
          in threads s1 ! i = Drain u a t (Settled False) \<and>
             trace s1 = trace s \<and>
             userLocks (hq_finally u t False s1) u = Some False \<and>
             trace s2 = trace s @ [LogError u, End t] @
               (case arrays s ! a of [] \<Rightarrow> [] | t' # rest \<Rightarrow> [Begin t', Typing t']) \<and>
             threads s2 ! i =
               (case arrays s ! a of [] \<Rightarrow> Finished
                | t' # rest \<Rightarrow> Drain u a t' (InProcess AwaitTyping)) \<and>
             userLocks s2 u = (case arrays s ! a of [] \<Rightarrow> None | t' # rest \<Rightarrow> Some True) \<and>
             userQueues s2 u = (case arrays s ! a of [] \<Rightarrow> None | t' # rest \<Rightarrow> Some a) \<and>
             arrays s2 ! a = (case arrays s ! a of [] \<Rightarrow> [] | t' # rest \<Rightarrow> rest) \<and>
             length (threads s2) = length (threads s) \<and>
             (\<forall>j. j \<noteq> i \<longrightarrow> threads s2 ! j = threads s ! j)"
    using failure_step[OF inv_run i th, of out] by (simp add: Let_def)
  show "let s = run es (init cwd);
              s' = run (concat (replicate (Suc (length (arrays s ! a)))
                     [Settle i Reject, Settle i Reject])) s
          in trace s' = trace s @ fail_trace u t (arrays s ! a) \<and>
             threads s' ! i = Finished \<and> userQueues s' u = None \<and> userLocks s' u = None"
    using all_failures_drain[OF i th refl] by (simp add: Let_def)
qed

theorem failure_isolated_witness:
  "threads (run [Welcome \<lparr> ctx_from = [0x75], ctx_body = [0x68, 0x69] \<rparr>,
                 Welcome \<lparr> ctx_from = [0x75], ctx_body = [0x62, 0x79, 0x65] \<rparr>,
                 Settle 0 Reject, Settle 0 Reject] (init [])) ! 0 =
     Drain [0x75] 0 \<lparr> task_ctx = \<lparr> ctx_from = [0x75], ctx_body = [0x62, 0x79, 0x65] \<rparr>, task_act = 1 \<rparr>
       (InProcess AwaitTyping)"
proof -
  let ?es = "[Welcome \<lparr> ctx_from = [0x75], ctx_body = [0x68, 0x69] \<rparr>,
              Welcome \<lparr> ctx_from = [0x75], ctx_body = [0x62, 0x79, 0x65] \<rparr>]"
  let ?A = "\<lparr> task_ctx = \<lparr> ctx_from = [0x75], ctx_body = [0x68, 0x69] \<rparr>, task_act = 0 \<rparr>"
  let ?B = "\<lparr> task_ctx = \<lparr> ctx_from = [0x75], ctx_body = [0x62, 0x79, 0x65] \<rparr>, task_act = 1 \<rparr>"
  have l: "0 < length (threads (run ?es (init [])))" by (simp add: run_eval)
  have t: "threads (run ?es (init [])) ! 0 = Drain [0x75] 0 ?A (InProcess AwaitTyping)"
    by (simp add: run_eval)
  have q: "arrays (run ?es (init [])) ! 0 = [?B]" by (simp add: run_eval)
  from failure_isolated [OF l t, of Reject] q show ?thesis
    by (simp add: run_def Let_def)
qed


text \<open>
  C4: the pattern of line 31 asks for two spaces after the closing bracket. On the
  response made of H, i, U+3010, 1, U+3011 the text path delivers the chunk with its
  marker. The voice note flow, whose pattern is the marker alone, leaves no match behind
  (\<open>voice_chunks_no_marker\<close>).
\<close>

theorem text_chunk_keeps_marker:
  "trace (run [Welcome \<lparr> ctx_from = [0x75], ctx_body = [0x68, 0x69] \<rparr>,
               Settle 0 (Resolve []),
               Settle 0 (Resolve [0x48, 0x69, 0x3010, 0x31, 0x3011])] (init [])) ! 4 =
   Deliver \<lparr> task_ctx = \<lparr> ctx_from = [0x75], ctx_body = [0x68, 0x69] \<rparr>, task_act = 0 \<rparr>
     [0x48, 0x69, 0x3010, 0x31, 0x3011]"
  by (simp add: run_def init_def welcomeFlow_def handleQueue_def hq_loop_def Let_def
      text_chunks_def js_split_def js_replace_def js_trim_def is_space_def LF_def LB_def RB_def SP_def)


text \<open>
  C5: when the promise of line 50 has settled and the array of the user is empty, the
  run that finds it empty also removes the entry of the queue map and the entry of the
  lock map and ends the drain. A message of the same user that comes next finds no entry:
  it creates a new array, at an address other than that of the old one, and starts a new
  drain on it.
\<close>

theorem queue_lifecycle:
  assumes i: "i < length (threads (run es (init cwd)))"
    and th: "threads (run es (init cwd)) ! i = Drain u a t (Settled ok)"
    and e: "arrays (run es (init cwd)) ! a = []"
    and c: "ctx_from c = u"
  shows "let s = run es (init cwd);
             s1 = step (Settle i out) s;
             s2 = step (Welcome c) s1
         in userQueues s1 u = None \<and> userLocks s1 u = None \<and> threads s1 ! i = Finished \<and>
            a < length (arrays s1) \<and>
            userQueues s2 u = Some (length (arrays s1)) \<and> userLocks s2 u = Some True \<and>
            arrays s2 = arrays s1 @ [[]] \<and>
            threads s2 = threads s1 @
              [Drain u (length (arrays s1)) \<lparr> task_ctx = c, task_act = length (threads s1) \<rparr>
                 (InProcess AwaitTyping)]"
proof -
  define s where "s = run es (init cwd)"
  define s1 where "s1 = step (Settle i out) s"
  define s2 where "s2 = step (Welcome c) s1"
  have I: "registry_inv s" unfolding s_def by (rule inv_run)
  have i': "i < length (threads s)" and th': "threads s ! i = Drain u a t (Settled ok)"
    and e': "arrays s ! a = []"
    using i th e by (simp_all add: s_def)
  have a: "a < length (arrays s)" using invD_drain[OF I i' th'] by simp
  have "hq_settled u a t ok s =
     (Returned, s\<lparr> userLocks := (userLocks s)(u := None),
                   userQueues := (userQueues s)(u := None),
                   trace := trace s @ (if ok then [] else [LogError u]) @ [End t] \<rparr>)"
    using a e' by (rule hq_settled_empty)
  then have s1: "s1 = s\<lparr> userLocks := (userLocks s)(u := None),
                   userQueues := (userQueues s)(u := None),
                   trace := trace s @ (if ok then [] else [LogError u]) @ [End t],
                   threads := (threads s)[i := Finished] \<rparr>"
    using i' th' by (simp add: s1_def)
  have f1: "userQueues s1 u = None" "userLocks s1 u = None" "threads s1 ! i = Finished"
    "arrays s1 = arrays s"
    using i' by (simp_all add: s1)
  have "userQueues s1 (ctx_from c) = None" "userLocks s1 (ctx_from c) \<noteq> Some True"
    using f1 c by simp_all
  from welcomeFlow_absent[OF this]
  have f2: "userQueues s2 u = Some (length (arrays s1))" "userLocks s2 u = Some True"
    "arrays s2 = arrays s1 @ [[]]"
    "threads s2 = threads s1 @
       [Drain u (length (arrays s1)) \<lparr> task_ctx = c, task_act = length (threads s1) \<rparr>
          (InProcess AwaitTyping)]"
    using c by (simp_all add: s2_def)
  from f1 f2 a show ?thesis by (simp add: s_def s1_def s2_def Let_def)
qed

theorem queue_lifecycle_witness:
  "userQueues (step (Settle 0 Reject)
      (run [Welcome \<lparr> ctx_from = [0x75], ctx_body = [0x68, 0x69] \<rparr>, Settle 0 Reject] (init [])))
      [0x75] = None \<and>
   userQueues (step (Welcome \<lparr> ctx_from = [0x75], ctx_body = [0x62, 0x79, 0x65] \<rparr>)
     (step (Settle 0 Reject)
      (run [Welcome \<lparr> ctx_from = [0x75], ctx_body = [0x68, 0x69] \<rparr>, Settle 0 Reject] (init []))))
      [0x75] = Some 1"
proof -
  let ?es = "[Welcome \<lparr> ctx_from = [0x75], ctx_body = [0x68, 0x69] \<rparr>, Settle 0 Reject]"
  let ?A = "\<lparr> task_ctx = \<lparr> ctx_from = [0x75], ctx_body = [0x68, 0x69] \<rparr>, task_act = 0 \<rparr>"
  have l: "0 < length (threads (run ?es (init [])))" by (simp add: run_eval)
  have t: "threads (run ?es (init [])) ! 0 = Drain [0x75] 0 ?A (Settled False)"
    by (simp add: run_eval)
  have q: "arrays (run ?es (init [])) ! 0 = []" by (simp add: run_eval)
  have c: "ctx_from \<lparr> ctx_from = [0x75], ctx_body = [0x62, 0x79, 0x65] \<rparr> = [0x75::jschar]" by simp
  have n: "length (arrays (step (Settle 0 Reject) (run ?es (init [])))) = 1" by (simp add: run_eval)
  from queue_lifecycle [OF l t q c, of Reject] show ?thesis
    unfolding Let_def n by blast
qed












text \<open>
  C8: the voice note flow splits the response exactly at its sentence boundaries: the
  periods followed by white space that no digit precedes. The split of line 99 yields what
  lies between the separators at these positions, in order, and a period after a digit is
  no boundary; the bodies of the flow are these pieces, trimmed and stripped; and once
  the completion call of an activation has resolved with the response \<open>r\<close>, the flow
  delivers them one by one, in this order, as long as the sends succeed, whatever the
  other activations do in between.
\<close>

theorem split_sentence:
  "js_split re_sentence r = pieces_at r 0 (filter (sentence_boundary r) [0..<length r]) \<and>
   voice_chunks r =
     map (\<lambda>piece. js_replace re_tag (js_trim piece))
       (pieces_at r 0 (filter (sentence_boundary r) [0..<length r])) \<and>
   (i < length (threads s) \<longrightarrow> threads s ! i = Voice c (AtAsk p) \<longrightarrow>
    settles i es = Resolve r # map Resolve xs \<longrightarrow>
    length xs < length (pieces_at r 0 (filter (sentence_boundary r) [0..<length r])) \<longrightarrow>
      emitted i es s =
        map (\<lambda>piece. VDeliver i (js_replace re_tag (js_trim piece)))
          (take (Suc (length xs)) (pieces_at r 0 (filter (sentence_boundary r) [0..<length r]))))"
proof -
  let ?ps = "pieces_at r 0 (filter (sentence_boundary r) [0..<length r])"
  have sp: "js_split re_sentence r = ?ps"
  proof (cases "r = []")
    case True
    then show ?thesis by (simp add: js_split_def)
  next
    case False
    then show ?thesis using split_sentence_loop[of 0 0 r] by (simp add: js_split_def)
  qed
  then have vc: "voice_chunks r = map (\<lambda>piece. js_replace re_tag (js_trim piece)) ?ps"
    by (simp add: voice_chunks_def)
  have "emitted i es s =
        map (\<lambda>piece. VDeliver i (js_replace re_tag (js_trim piece))) (take (Suc (length xs)) ?ps)"
    if i: "i < length (threads s)" "threads s ! i = Voice c (AtAsk p)"
      "settles i es = Resolve r # map Resolve xs" and n: "length xs < length ?ps"
  proof -
    from n have "length xs < length (voice_chunks r)" by (simp add: vc)
    from voice_delivery[OF i this] show ?thesis
      by (simp add: vc take_map del: take_Suc_Cons)
  qed
  with sp vc show ?thesis by blast
qed

theorem split_sentence_witness:
  "emitted 0 [Settle 0 (Resolve [0x33, 0x2E, 0x20, 0x41, 0x2E, 0x20, 0x42]),
              VoiceNote \<lparr> ctx_from = [0x77], ctx_body = [] \<rparr>,
              Settle 0 (Resolve [])]
     (run [VoiceNote \<lparr> ctx_from = [0x75], ctx_body = [] \<rparr>, Settle 0 (Resolve [0x61]),
           Settle 0 (Resolve [0x68, 0x69]), Settle 0 (Resolve [])] (init [])) =
     [VDeliver 0 [0x33, 0x2E, 0x20, 0x41], VDeliver 0 [0x42]]"
proof -
  let ?d = "\<lparr> ctx_from = [0x75], ctx_body = [] \<rparr>"
  let ?s = "run [VoiceNote ?d, Settle 0 (Resolve [0x61]), Settle 0 (Resolve [0x68, 0x69]),
                 Settle 0 (Resolve [])] (init [])"
  let ?r = "[0x33, 0x2E, 0x20, 0x41, 0x2E, 0x20, 0x42] :: jsstring"
  let ?es = "[Settle 0 (Resolve ?r), VoiceNote \<lparr> ctx_from = [0x77], ctx_body = [] \<rparr>,
              Settle 0 (Resolve [])]"
  have s: "0 < length (threads ?s)" "threads ?s ! 0 = Voice ?d (AtAsk [0x61])"
    by (simp_all add: run_eval)
  have e: "settles 0 ?es = Resolve ?r # map Resolve [[]]"
    by simp
  have p: "pieces_at ?r 0 (filter (sentence_boundary ?r) [0..<length ?r]) =
      [[0x33, 0x2E, 0x20, 0x41], [0x42]]"
    by (simp add: sentence_boundary_def separator_end_def is_space_def is_digit_def DOT_def upt_rec)
  from split_sentence [of ?r 0 ?s ?d "[0x61]" ?es "[[]]"]
  have "emitted 0 ?es ?s =
      map (\<lambda>piece. VDeliver 0 (js_replace re_tag (js_trim piece)))
        [[0x33, 0x2E, 0x20, 0x41], [0x42]]"
    unfolding p e using s by (simp del: emitted.simps)
  then show ?thesis
    by (simp add: js_replace_def js_trim_def is_space_def LB_def RB_def del: emitted.simps)
qed


text \<open>
  C9: whatever the events, every write of synthesized speech and every media attachment
  in the trace carries one path, the one computed once when the module is loaded:
  \<^verbatim>\<open>./assets/audio_bot/speech.mp3\<close> resolved in the working directory of the
  process. The activation, the user and the response have no part in it.
\<close>

theorem speech_path_fixed:
  "WriteFile v p \<in> set (trace (run es (init cwd))) \<or> SendMedia v p \<in> set (trace (run es (init cwd)))
   \<Longrightarrow> p = path_resolve cwd (ascii ''./assets/audio_bot/speech.mp3'')"
proof -
  have sf: "speechFile (init cwd) = path_resolve cwd (ascii ''./assets/audio_bot/speech.mp3'')"
    by (simp add: init_def)
  assume "WriteFile v p \<in> set (trace (run es (init cwd))) \<or> SendMedia v p \<in> set (trace (run es (init cwd)))"
  then show ?thesis
    using paths_run[of "WriteFile v p" es cwd] paths_run[of "SendMedia v p" es cwd] sf by auto
qed

theorem speech_path_fixed_witness:
  "WriteFile 0 (ascii ''/bot/assets/audio_bot/speech.mp3'') \<in>
     set (trace (run [VoiceNote \<lparr> ctx_from = [0x75], ctx_body = [] \<rparr>,
      Settle 0 (Resolve [0x61]), Settle 0 (Resolve [0x68, 0x69]), Settle 0 (Resolve []),
      Settle 0 (Resolve [0x4F, 0x6B]), Settle 0 (Resolve []), Settle 0 (Resolve []),
      Settle 0 (Resolve []), Settle 0 (Resolve []), Settle 0 (Resolve []),
      Settle 0 (Resolve []), Settle 0 (Resolve []), Settle 0 (Resolve [])] (init (ascii ''/bot'')))) \<and>
   ascii ''/bot/assets/audio_bot/speech.mp3'' =
     path_resolve (ascii ''/bot'') (ascii ''./assets/audio_bot/speech.mp3'')"
proof -
  have w: "WriteFile 0 (ascii ''/bot/assets/audio_bot/speech.mp3'') \<in>
     set (trace (run [VoiceNote \<lparr> ctx_from = [0x75], ctx_body = [] \<rparr>,
      Settle 0 (Resolve [0x61]), Settle 0 (Resolve [0x68, 0x69]), Settle 0 (Resolve []),
      Settle 0 (Resolve [0x4F, 0x6B]), Settle 0 (Resolve []), Settle 0 (Resolve []),
      Settle 0 (Resolve []), Settle 0 (Resolve []), Settle 0 (Resolve []),
      Settle 0 (Resolve []), Settle 0 (Resolve []), Settle 0 (Resolve [])] (init (ascii ''/bot''))))"
    by (simp add: voice_eval)
  from w speech_path_fixed [of 0 "ascii ''/bot/assets/audio_bot/speech.mp3''" "[VoiceNote \<lparr> ctx_from = [0x75], ctx_body = [] \<rparr>,
      Settle 0 (Resolve [0x61]), Settle 0 (Resolve [0x68, 0x69]), Settle 0 (Resolve []),
      Settle 0 (Resolve [0x4F, 0x6B]), Settle 0 (Resolve []), Settle 0 (Resolve []),
      Settle 0 (Resolve []), Settle 0 (Resolve []), Settle 0 (Resolve []),
      Settle 0 (Resolve []), Settle 0 (Resolve []), Settle 0 (Resolve [])]" "ascii ''/bot''"]
  show ?thesis by blast
qed


text \<open>
  C10: if the lock of a user is set when \<^verbatim>\<open>handleQueue\<close> is called for that
  user, the call returns at once: no task leaves the queue, and the queue map, the lock
  map and everything else are as before.
\<close>

theorem handleQueue_locked:
  "userLocks s userId = Some True \<Longrightarrow> handleQueue userId s = (Returned, s)"
  by (simp add: handleQueue_def)

theorem handleQueue_locked_witness:
  "userLocks (run [Welcome \<lparr> ctx_from = [0x75], ctx_body = [0x68, 0x69] \<rparr>] (init [])) [0x75] = Some True \<and>
   handleQueue [0x75] (run [Welcome \<lparr> ctx_from = [0x75], ctx_body = [0x68, 0x69] \<rparr>] (init [])) =
     (Returned, run [Welcome \<lparr> ctx_from = [0x75], ctx_body = [0x68, 0x69] \<rparr>] (init []))"
proof -
  have l: "userLocks (run [Welcome \<lparr> ctx_from = [0x75], ctx_body = [0x68, 0x69] \<rparr>] (init [])) [0x75] = Some True"
    by (simp add: run_def init_def welcomeFlow_def handleQueue_def hq_loop_def Let_def)
  from l handleQueue_locked [OF l] show ?thesis by simp
qed

end
